theory Spec2Isabelle
  imports Main
begin

section \<open>Data model (src/types.ts)\<close>

record Teacher =
  id' :: string
  name :: string

record Shift =
  date :: string
  teacherId :: "string option"

section \<open>Calendar dates\<close>

text \<open>
  The program handles dates through the platform's \<open>Date\<close> objects.  In this first part
  of the model such an object is its local calendar day, given by the calendar fields named
  after the accessors the source calls; the month is zero-based as in the source.  The
  local time of day, which the objects carry as well, and the time zone are added in the
  section on time of day and time zones: the generator is given there once more, and it
  computes what the generator over calendar days computes for every day before the last
  day of the visible month, and for the last day too when the walk reaches it (lemma
  \<open>generateSchedule_tz_refines\<close>), as it does wherever no local midnight within the
  walk is skipped (lemma \<open>regenerateSchedule_tz_midnights\<close>).  Dates that the platform
  cannot represent are outside the model.
\<close>

record Date =
  getFullYear :: int
  getMonth :: int
  getDate :: int

definition InLeapYear :: "int \<Rightarrow> bool" where
  "InLeapYear y = (y mod 4 = 0 \<and> (y mod 100 \<noteq> 0 \<or> y mod 400 = 0))"

definition DaysInYear :: "int \<Rightarrow> int" where
  "DaysInYear y = (if InLeapYear y then 366 else 365)"

definition DaysInMonth :: "int \<Rightarrow> int \<Rightarrow> int" where
  "DaysInMonth y m =
     (if m = 1 then (if InLeapYear y then 29 else 28)
      else if m = 3 \<or> m = 5 \<or> m = 8 \<or> m = 10 then 30
      else 31)"

text \<open>Number of the first day of year \<open>y\<close>, counted from 1970-01-01 (day 0).\<close>

definition DayFromYear :: "int \<Rightarrow> int" where
  "DayFromYear y =
     365 * (y - 1970) + (y - 1969) div 4 - (y - 1901) div 100 + (y - 1601) div 400"

text \<open>Days of year \<open>y\<close> that lie before its month \<open>m\<close>.\<close>

definition DaysBeforeMonth :: "int \<Rightarrow> int \<Rightarrow> int" where
  "DaysBeforeMonth y m =
     (if m \<le> 0 then 0
      else if m = 1 then 31
      else (if InLeapYear y then 1 else 0) +
        (if m = 2 then 59 else if m = 3 then 90 else if m = 4 then 120
         else if m = 5 then 151 else if m = 6 then 181 else if m = 7 then 212
         else if m = 8 then 243 else if m = 9 then 273 else if m = 10 then 304
         else if m = 11 then 334 else 365))"

text \<open>
  The day number that a triple of year, month and day of the month denotes.  The month may
  lie outside \<open>0..11\<close> and is carried into the year; the day may be any integer.
\<close>

definition MakeDay :: "int \<Rightarrow> int \<Rightarrow> int \<Rightarrow> int" where
  "MakeDay y m d =
     DayFromYear (y + m div 12) + DaysBeforeMonth (y + m div 12) (m mod 12) + d - 1"

text \<open>
  The source compares \<open>Date\<close> objects with \<open><\<close>, \<open><=\<close> and \<open>>\<close>, which compare
  their time values.  In this part of the model the day numbers are compared, which is the
  comparison of the time values whenever the two objects carry the same local time of day.
\<close>

definition dayNumber :: "Date \<Rightarrow> int" where
  "dayNumber t = MakeDay (getFullYear t) (getMonth t) (getDate t)"

definition validDate :: "Date \<Rightarrow> bool" where
  "validDate t =
     (0 \<le> getMonth t \<and> getMonth t < 12 \<and> 1 \<le> getDate t \<and>
      getDate t \<le> DaysInMonth (getFullYear t) (getMonth t))"

subsection \<open>Facts about the calendar tables\<close>

lemma DaysInMonth_bounds: "28 \<le> DaysInMonth y m \<and> DaysInMonth y m \<le> 31"
  by (simp add: DaysInMonth_def)

lemma div_succ:
  fixes x k :: int
  assumes "0 < k"
  shows "(x + 1) div k = x div k + (if (x + 1) mod k = 0 then 1 else 0)"
proof (cases "x mod k + 1 < k")
  case True
  have r: "0 \<le> x mod k + 1" using assms by (simp add: add_nonneg_nonneg)
  have e: "x + 1 = k * (x div k) + (x mod k + 1)" by simp
  have "(x + 1) div k = x div k"
    using int_div_pos_eq [OF e r True] .
  moreover have "(x + 1) mod k = x mod k + 1"
    using int_mod_pos_eq [OF e r True] .
  moreover have "0 \<le> x mod k" using assms by simp
  ultimately show ?thesis by simp
next
  case False
  have "x mod k < k" using assms by simp
  with False have k: "x mod k + 1 = k" by simp
  have "x + 1 = k * (x div k) + (x mod k + 1)" by simp
  also have "\<dots> = k * (x div k + 1) + 0" unfolding k by (simp add: algebra_simps)
  finally have e: "x + 1 = k * (x div k + 1) + 0" .
  have "(x + 1) div k = x div k + 1"
    using int_div_pos_eq [OF e] assms by simp
  moreover have "(x + 1) mod k = 0"
    using int_mod_pos_eq [OF e] assms by simp
  ultimately show ?thesis by simp
qed

lemma dvd_mod0:
  fixes y a b :: int
  assumes "a dvd b" "y mod b = 0"
  shows "y mod a = 0"
proof -
  from assms(2) have "b dvd y" by (simp only: dvd_eq_mod_eq_0)
  with assms(1) have "a dvd y" by (rule dvd_trans)
  then show ?thesis by (simp only: dvd_eq_mod_eq_0)
qed

lemma leap_count:
  fixes A B C :: int
  assumes "q400 \<Longrightarrow> q100" "q100 \<Longrightarrow> q4"
  shows "A + (if q4 then 1 else 0) - (B + (if q100 then 1 else 0)) + (C + (if q400 then 1 else 0))
     = A - B + C + (if q4 \<and> (\<not> q100 \<or> q400) then 1 else 0)"
  using assms by (cases q400; cases q100; cases q4) simp_all

lemma leap_step:
  "(y - 1968) div 4 - (y - 1900) div 100 + (y - 1600) div 400
   = (y - 1969) div 4 - (y - 1901) div 100 + (y - 1601) div 400 + (if InLeapYear y then 1 else 0)"
proof -
  have m4: "(y - 1968) mod 4 = y mod 4" using mod_diff_right_eq [of y 1968 4] by simp
  have m100: "(y - 1900) mod 100 = y mod 100" using mod_diff_right_eq [of y 1900 100] by simp
  have m400: "(y - 1600) mod 400 = y mod 400" using mod_diff_right_eq [of y 1600 400] by simp
  have a: "(y - 1968) div 4 = (y - 1969) div 4 + (if y mod 4 = 0 then 1 else 0)"
    using div_succ [of 4 "y - 1969"] m4 by simp
  have b: "(y - 1900) div 100 = (y - 1901) div 100 + (if y mod 100 = 0 then 1 else 0)"
    using div_succ [of 100 "y - 1901"] m100 by simp
  have c: "(y - 1600) div 400 = (y - 1601) div 400 + (if y mod 400 = 0 then 1 else 0)"
    using div_succ [of 400 "y - 1601"] m400 by simp
  have d: "y mod 400 = 0 \<Longrightarrow> y mod 100 = 0"
    by (rule dvd_mod0 [of 100 400]) simp_all
  have e: "y mod 100 = 0 \<Longrightarrow> y mod 4 = 0"
    by (rule dvd_mod0 [of 4 100]) simp_all
  show ?thesis
    unfolding a b c InLeapYear_def
    by (rule leap_count) (erule d, erule e)
qed

lemma DayFromYear_Suc: "DayFromYear (y + 1) = DayFromYear y + DaysInYear y"
proof -
  have lin: "\<And>k a b c :: int. k + a - b + c = k + (a - b + c)" by simp
  have s: "y + 1 - 1970 = y - 1969" "y + 1 - 1969 = y - 1968" "y + 1 - 1901 = y - 1900"
    "y + 1 - 1601 = y - 1600" by simp_all
  have "DayFromYear (y + 1) = 365 * (y - 1969) + ((y - 1968) div 4 - (y - 1900) div 100 + (y - 1600) div 400)"
    unfolding DayFromYear_def s by (rule lin)
  also have "\<dots> = 365 * (y - 1969) + ((y - 1969) div 4 - (y - 1901) div 100 + (y - 1601) div 400 + (if InLeapYear y then 1 else 0))"
    by (simp only: leap_step)
  also have "\<dots> = DayFromYear y + DaysInYear y"
    unfolding DayFromYear_def DaysInYear_def lin by (cases "InLeapYear y") (simp_all only: if_True if_False, simp_all)
  finally show ?thesis .
qed

lemma DaysBeforeMonth_Suc:
  "0 \<le> m \<Longrightarrow> m < 11 \<Longrightarrow> DaysBeforeMonth y (m + 1) = DaysBeforeMonth y m + DaysInMonth y m"
proof -
  assume "0 \<le> m" "m < 11"
  then consider "m = 0" | "m = 1" | "m = 2" | "m = 3" | "m = 4" | "m = 5" | "m = 6" | "m = 7"
    | "m = 8" | "m = 9" | "m = 10" by atomize_elim arith
  then show ?thesis
    by cases (simp_all add: DaysBeforeMonth_def DaysInMonth_def)
qed

lemma DaysBeforeMonth_last:
  "DaysBeforeMonth y 11 + DaysInMonth y 11 = DaysInYear y"
  by (simp add: DaysBeforeMonth_def DaysInMonth_def DaysInYear_def)

lemma MakeDay_in_range:
  "0 \<le> m \<Longrightarrow> m < 12 \<Longrightarrow> MakeDay y m d = DayFromYear y + DaysBeforeMonth y m + d - 1"
  by (simp add: MakeDay_def)

subsection \<open>Bringing a date into range\<close>

text \<open>
  A day of the month outside the month is carried into the neighbouring months, one month
  at a time, until it fits.
\<close>

function normalise :: "int \<Rightarrow> int \<Rightarrow> int \<Rightarrow> Date" where
  "normalise y m d =
     (if d < 1 then
        (if m \<le> 0 then normalise (y - 1) 11 (d + DaysInMonth (y - 1) 11)
         else normalise y (m - 1) (d + DaysInMonth y (m - 1)))
      else if DaysInMonth y m < d then
        (if 11 \<le> m then normalise (y + 1) 0 (d - DaysInMonth y m)
         else normalise y (m + 1) (d - DaysInMonth y m))
      else \<lparr>getFullYear = y, getMonth = m, getDate = d\<rparr>)"
  by pat_completeness auto
termination
proof (relation "measure (\<lambda>(y, m, d). nat (if d < 1 then 33 - d else d))")
  show "wf (measure (\<lambda>(y, m, d). nat (if d < 1 then 33 - d else d)))"
    by simp
next
  fix y m d :: int
  assume "d < 1" "m \<le> 0"
  then show "((y - 1, 11, d + DaysInMonth (y - 1) 11), y, m, d)
      \<in> measure (\<lambda>(y, m, d). nat (if d < 1 then 33 - d else d))"
    using DaysInMonth_bounds [of "y - 1" 11] by auto
next
  fix y m d :: int
  assume "d < 1" "\<not> m \<le> 0"
  then show "((y, m - 1, d + DaysInMonth y (m - 1)), y, m, d)
      \<in> measure (\<lambda>(y, m, d). nat (if d < 1 then 33 - d else d))"
    using DaysInMonth_bounds [of y "m - 1"] by auto
next
  fix y m d :: int
  assume "\<not> d < 1" "DaysInMonth y m < d" "11 \<le> m"
  then show "((y + 1, 0, d - DaysInMonth y m), y, m, d)
      \<in> measure (\<lambda>(y, m, d). nat (if d < 1 then 33 - d else d))"
    using DaysInMonth_bounds [of y m] by auto
next
  fix y m d :: int
  assume "\<not> d < 1" "DaysInMonth y m < d" "\<not> 11 \<le> m"
  then show "((y, m + 1, d - DaysInMonth y m), y, m, d)
      \<in> measure (\<lambda>(y, m, d). nat (if d < 1 then 33 - d else d))"
    using DaysInMonth_bounds [of y m] by auto
qed

declare normalise.simps [simp del]

text \<open>
  \<open>MakeDate y m d\<close> is the date that the fields \<open>y\<close>, \<open>m\<close>, \<open>d\<close> denote once month and
  day are brought into range.
\<close>

definition MakeDate :: "int \<Rightarrow> int \<Rightarrow> int \<Rightarrow> Date" where
  "MakeDate y m d = normalise (y + m div 12) (m mod 12) d"

text \<open>
  \<open>new Date(year, month, day)\<close>: a year from 0 to 99 stands for 1900 + year.
\<close>

definition fullYear :: "int \<Rightarrow> int" where
  "fullYear y = (if 0 \<le> y \<and> y \<le> 99 then 1900 + y else y)"

definition new_Date :: "int \<Rightarrow> int \<Rightarrow> int \<Rightarrow> Date" where
  "new_Date y m d = MakeDate (fullYear y) m d"

text \<open>\<open>date.setDate(n)\<close>, returning the changed date.\<close>

definition setDate :: "Date \<Rightarrow> int \<Rightarrow> Date" where
  "setDate t n = MakeDate (getFullYear t) (getMonth t) n"


subsection \<open>Dates in range and their day numbers\<close>

lemma normalise_id:
  "1 \<le> d \<Longrightarrow> d \<le> DaysInMonth y m \<Longrightarrow>
     normalise y m d = \<lparr>getFullYear = y, getMonth = m, getDate = d\<rparr>"
  by (subst normalise.simps) simp

lemma normalise_props:
  "0 \<le> m \<Longrightarrow> m < 12 \<Longrightarrow>
     validDate (normalise y m d) \<and> dayNumber (normalise y m d) = MakeDay y m d"
proof (induction y m d rule: normalise.induct)
  case (1 y m d)
  note range = \<open>0 \<le> m\<close> \<open>m < 12\<close>
  show ?case
  proof (cases "d < 1")
    case low: True
    show ?thesis
    proof (cases "m \<le> 0")
      case True
      with range have m0: "m = 0" by simp
      have unf: "normalise y m d = normalise (y - 1) 11 (d + DaysInMonth (y - 1) 11)"
        using low True by (subst normalise.simps) simp
      have "DayFromYear y = DayFromYear (y - 1) + DaysInYear (y - 1)"
        using DayFromYear_Suc [of "y - 1"] by simp
      then have "MakeDay (y - 1) 11 (d + DaysInMonth (y - 1) 11) = MakeDay y m d"
        using DaysBeforeMonth_last [of "y - 1"]
        by (simp add: MakeDay_in_range m0 DaysBeforeMonth_def [of y 0])
      with 1(1) [OF low True] show ?thesis unfolding unf by simp
    next
      case False
      have unf: "normalise y m d = normalise y (m - 1) (d + DaysInMonth y (m - 1))"
        using low False by (subst normalise.simps) simp
      have "MakeDay y (m - 1) (d + DaysInMonth y (m - 1)) = MakeDay y m d"
        using DaysBeforeMonth_Suc [of "m - 1" y] False range
        by (simp add: MakeDay_in_range)
      with 1(2) [OF low False] False range show ?thesis unfolding unf by simp
    qed
  next
    case nlow: False
    show ?thesis
    proof (cases "DaysInMonth y m < d")
      case big: True
      show ?thesis
      proof (cases "11 \<le> m")
        case True
        with range have m11: "m = 11" by simp
        have unf: "normalise y m d = normalise (y + 1) 0 (d - DaysInMonth y m)"
          using nlow big True by (subst normalise.simps) simp
        have "MakeDay (y + 1) 0 (d - DaysInMonth y m) = MakeDay y m d"
          using DaysBeforeMonth_last [of y] DayFromYear_Suc [of y]
          by (simp add: MakeDay_in_range m11 DaysBeforeMonth_def [of "y + 1" 0])
        with 1(3) [OF nlow big True] show ?thesis unfolding unf by simp
      next
        case False
        have unf: "normalise y m d = normalise y (m + 1) (d - DaysInMonth y m)"
          using nlow big False by (subst normalise.simps) simp
        have "MakeDay y (m + 1) (d - DaysInMonth y m) = MakeDay y m d"
          using DaysBeforeMonth_Suc [of m y] False range
          by (simp add: MakeDay_in_range)
        with 1(4) [OF nlow big False] False range show ?thesis unfolding unf by simp
      qed
    next
      case False
      with nlow range show ?thesis
        by (simp add: normalise_id validDate_def dayNumber_def)
    qed
  qed
qed

lemma MakeDate_valid: "validDate (MakeDate y m d)"
  unfolding MakeDate_def by (rule normalise_props [THEN conjunct1]) simp_all

lemma MakeDate_dayNumber: "dayNumber (MakeDate y m d) = MakeDay y m d"
proof -
  have "dayNumber (MakeDate y m d) = MakeDay (y + m div 12) (m mod 12) d"
    unfolding MakeDate_def by (rule normalise_props [THEN conjunct2]) simp_all
  also have "\<dots> = MakeDay y m d"
    by (simp add: MakeDay_def)
  finally show ?thesis .
qed

lemma MakeDate_id:
  "validDate t \<Longrightarrow> MakeDate (getFullYear t) (getMonth t) (getDate t) = t"
  by (simp add: MakeDate_def validDate_def normalise_id)

lemma setDate_valid: "validDate (setDate t n)"
  unfolding setDate_def by (rule MakeDate_valid)

lemma dayNumber_setDate_succ: "dayNumber (setDate t (getDate t + 1)) = dayNumber t + 1"
proof -
  have "dayNumber (setDate t (getDate t + 1)) = MakeDay (getFullYear t) (getMonth t) (getDate t + 1)"
    unfolding setDate_def by (rule MakeDate_dayNumber)
  also have "\<dots> = MakeDay (getFullYear t) (getMonth t) (getDate t) + 1"
    by (simp add: MakeDay_def)
  finally show ?thesis by (simp add: dayNumber_def)
qed

lemma DayFromYear_mono: "y \<le> y' \<Longrightarrow> DayFromYear y \<le> DayFromYear y'"
proof (induction y' rule: int_ge_induct)
  case base
  show ?case by simp
next
  case (step i)
  have "0 \<le> DaysInYear i" by (simp add: DaysInYear_def)
  with step.IH show ?case by (simp add: DayFromYear_Suc)
qed

lemma DaysBeforeMonth_mono:
  assumes "0 \<le> m" "m \<le> m'" "m' \<le> 11"
  shows "DaysBeforeMonth y m \<le> DaysBeforeMonth y m'"
  using assms(2,3)
proof (induction m' rule: int_ge_induct)
  case base
  show ?case by simp
next
  case (step i)
  have "0 \<le> DaysInMonth y i" using DaysInMonth_bounds [of y i] by simp
  moreover have "DaysBeforeMonth y (i + 1) = DaysBeforeMonth y i + DaysInMonth y i"
    using step.prems step.hyps assms(1) by (intro DaysBeforeMonth_Suc) simp_all
  ultimately show ?case using step by simp
qed

lemma month_end_in_year:
  assumes "0 \<le> m" "m < 12"
  shows "DaysBeforeMonth y m + DaysInMonth y m \<le> DaysInYear y"
proof (cases "m = 11")
  case True
  then show ?thesis using DaysBeforeMonth_last [of y] by simp
next
  case False
  with assms have "DaysBeforeMonth y (m + 1) = DaysBeforeMonth y m + DaysInMonth y m"
    by (intro DaysBeforeMonth_Suc) simp_all
  moreover have "DaysBeforeMonth y (m + 1) \<le> DaysBeforeMonth y 11"
    using assms False by (intro DaysBeforeMonth_mono) simp_all
  moreover have "0 \<le> DaysInMonth y 11" using DaysInMonth_bounds [of y 11] by simp
  ultimately show ?thesis using DaysBeforeMonth_last [of y] by simp
qed

lemma dayNumber_valid:
  "validDate t \<Longrightarrow>
     dayNumber t = DayFromYear (getFullYear t) + DaysBeforeMonth (getFullYear t) (getMonth t) + getDate t - 1"
  by (simp add: validDate_def dayNumber_def MakeDay_in_range)

lemma dayNumber_year_bounds:
  assumes "validDate t"
  shows "DayFromYear (getFullYear t) \<le> dayNumber t"
    and "dayNumber t < DayFromYear (getFullYear t + 1)"
proof -
  have m: "0 \<le> getMonth t" "getMonth t < 12" "1 \<le> getDate t"
    "getDate t \<le> DaysInMonth (getFullYear t) (getMonth t)"
    using assms by (simp_all add: validDate_def)
  have "0 \<le> DaysBeforeMonth (getFullYear t) (getMonth t)"
    using DaysBeforeMonth_mono [of 0 "getMonth t" "getFullYear t"] m
    by (simp add: DaysBeforeMonth_def [of _ 0])
  with m show "DayFromYear (getFullYear t) \<le> dayNumber t"
    by (simp add: dayNumber_valid [OF assms])
  show "dayNumber t < DayFromYear (getFullYear t + 1)"
    using month_end_in_year [OF m(1,2), of "getFullYear t"] m
    by (simp add: dayNumber_valid [OF assms] DayFromYear_Suc)
qed

lemma dayNumber_same_year:
  assumes "validDate t" "validDate u" "dayNumber t = dayNumber u"
  shows "getFullYear t = getFullYear u"
proof (rule ccontr)
  assume ne: "getFullYear t \<noteq> getFullYear u"
  have *: False if "validDate a" "validDate b" "dayNumber a = dayNumber b"
      "getFullYear a < getFullYear b" for a b
  proof -
    have "dayNumber a < DayFromYear (getFullYear a + 1)"
      using that(1) by (rule dayNumber_year_bounds)
    also have "\<dots> \<le> DayFromYear (getFullYear b)"
      using that(4) by (intro DayFromYear_mono) simp
    also have "\<dots> \<le> dayNumber b"
      using that(2) by (rule dayNumber_year_bounds)
    finally show False using that(3) by simp
  qed
  from ne consider "getFullYear t < getFullYear u" | "getFullYear u < getFullYear t"
    by atomize_elim arith
  then show False
    using * [of t u] * [of u t] assms by cases simp_all
qed

lemma dayNumber_same_month:
  assumes "validDate t" "validDate u" "dayNumber t = dayNumber u"
  shows "getMonth t = getMonth u"
proof (rule ccontr)
  assume ne: "getMonth t \<noteq> getMonth u"
  have y: "getFullYear t = getFullYear u"
    using assms by (rule dayNumber_same_year)
  have *: False if "validDate a" "validDate b" "dayNumber a = dayNumber b"
      "getFullYear a = getFullYear b" "getMonth a < getMonth b" for a b
  proof -
    have a: "0 \<le> getMonth a" "getDate a \<le> DaysInMonth (getFullYear a) (getMonth a)"
      using that(1) by (simp_all add: validDate_def)
    have b: "getMonth b < 12" "1 \<le> getDate b"
      using that(2) by (simp_all add: validDate_def)
    have "DaysBeforeMonth (getFullYear a) (getMonth a + 1)
        = DaysBeforeMonth (getFullYear a) (getMonth a) + DaysInMonth (getFullYear a) (getMonth a)"
      using a b that(5) by (intro DaysBeforeMonth_Suc) simp_all
    moreover have "DaysBeforeMonth (getFullYear a) (getMonth a + 1)
        \<le> DaysBeforeMonth (getFullYear a) (getMonth b)"
      using a b that(5) by (intro DaysBeforeMonth_mono) simp_all
    ultimately show False
      using that(3,4) a b
      by (simp add: dayNumber_valid [OF that(1)] dayNumber_valid [OF that(2)])
  qed
  from ne consider "getMonth t < getMonth u" | "getMonth u < getMonth t"
    by atomize_elim arith
  then show False
    using * [of t u] * [of u t] assms y by cases simp_all
qed

lemma dayNumber_inj:
  assumes "validDate t" "validDate u" "dayNumber t = dayNumber u"
  shows "t = u"
proof -
  have y: "getFullYear t = getFullYear u" using assms by (rule dayNumber_same_year)
  have m: "getMonth t = getMonth u" using assms by (rule dayNumber_same_month)
  have "getDate t = getDate u"
    using assms(3) y m by (simp add: dayNumber_valid [OF assms(1)] dayNumber_valid [OF assms(2)])
  with y m show ?thesis by simp
qed

subsection \<open>The next day, and the days of a month\<close>

lemma setDate_succ:
  assumes "validDate t"
  shows "setDate t (getDate t + 1) =
     (if getDate t < DaysInMonth (getFullYear t) (getMonth t)
      then \<lparr>getFullYear = getFullYear t, getMonth = getMonth t, getDate = getDate t + 1\<rparr>
      else if getMonth t = 11
      then \<lparr>getFullYear = getFullYear t + 1, getMonth = 0, getDate = 1\<rparr>
      else \<lparr>getFullYear = getFullYear t, getMonth = getMonth t + 1, getDate = 1\<rparr>)"
proof -
  have v: "0 \<le> getMonth t" "getMonth t < 12" "1 \<le> getDate t"
    "getDate t \<le> DaysInMonth (getFullYear t) (getMonth t)"
    using assms by (simp_all add: validDate_def)
  have md: "setDate t (getDate t + 1) = normalise (getFullYear t) (getMonth t) (getDate t + 1)"
    using v by (simp add: setDate_def MakeDate_def)
  show ?thesis
  proof (cases "getDate t < DaysInMonth (getFullYear t) (getMonth t)")
    case True
    then show ?thesis using v unfolding md by (simp add: normalise_id)
  next
    case False
    with v have eq: "getDate t = DaysInMonth (getFullYear t) (getMonth t)" by simp
    have one: "\<And>y m. (1::int) \<le> DaysInMonth y m"
      using DaysInMonth_bounds by (meson order_trans one_le_numeral)
    show ?thesis
    proof (cases "getMonth t = 11")
      case True
      have "normalise (getFullYear t) (getMonth t) (getDate t + 1)
          = normalise (getFullYear t + 1) 0 1"
        using v True eq by (subst normalise.simps) simp
      then show ?thesis using False True one unfolding md by (simp add: normalise_id)
    next
      case m: False
      have "normalise (getFullYear t) (getMonth t) (getDate t + 1)
          = normalise (getFullYear t) (getMonth t + 1) 1"
        using v m eq by (subst normalise.simps) simp
      then show ?thesis using False m one unfolding md by (simp add: normalise_id)
    qed
  qed
qed

function getDatesInMonth_loop :: "int \<Rightarrow> Date \<Rightarrow> Date list \<Rightarrow> Date list" where
  "getDatesInMonth_loop month dt dates =
     (if getMonth dt = month
      then getDatesInMonth_loop month (setDate dt (getDate dt + 1)) (dates @ [dt])
      else dates)"
  by pat_completeness auto
termination
proof (relation "measure (\<lambda>(month, dt, dates).
    if getMonth dt \<noteq> month then 0
    else if validDate dt
      then nat (DaysInMonth (getFullYear dt) (getMonth dt) - getDate dt + 1)
    else 33)")
  show "wf (measure (\<lambda>(month, dt, dates).
    if getMonth dt \<noteq> month then 0
    else if validDate dt
      then nat (DaysInMonth (getFullYear dt) (getMonth dt) - getDate dt + 1)
    else 33))"
    by simp
next
  fix month :: int and dt :: Date and dates :: "Date list"
  assume same: "getMonth dt = month"
  let ?next = "setDate dt (getDate dt + 1)"
  have nv: "validDate ?next" by (rule setDate_valid)
  have "\<And>D d :: int. 1 \<le> d \<Longrightarrow> D \<le> 31 \<Longrightarrow> nat (D - d + 1) < 33"
    by arith
  then have small: "nat (DaysInMonth (getFullYear ?next) (getMonth ?next) - getDate ?next + 1) < 33"
    using nv DaysInMonth_bounds [of "getFullYear ?next" "getMonth ?next"]
    by (simp add: validDate_def)
  show "((month, ?next, dates @ [dt]), month, dt, dates)
      \<in> measure (\<lambda>(month, dt, dates).
        if getMonth dt \<noteq> month then 0
        else if validDate dt
          then nat (DaysInMonth (getFullYear dt) (getMonth dt) - getDate dt + 1)
        else 33)"
  proof (cases "validDate dt")
    case False
    with same nv small show ?thesis by auto
  next
    case True
    then have "1 \<le> getDate dt" "getDate dt \<le> DaysInMonth (getFullYear dt) (getMonth dt)"
      by (simp_all add: validDate_def)
    with same True nv show ?thesis
      by (simp add: setDate_succ [OF True])
  qed
qed

declare getDatesInMonth_loop.simps [simp del]

definition getDatesInMonth :: "int \<Rightarrow> int \<Rightarrow> Date list" where
  "getDatesInMonth year month = getDatesInMonth_loop month (new_Date year month 1) []"

section \<open>Formatting dates\<close>

text \<open>
  \<open>Number.prototype.toString\<close> on an integer: its decimal digits, with a minus sign
  when it is negative.
\<close>

definition digitChar :: "nat \<Rightarrow> char" where
  "digitChar n = ''0123456789'' ! n"

fun digits :: "nat \<Rightarrow> string" where
  "digits n = (if n < 10 then [digitChar n] else digits (n div 10) @ [digitChar (n mod 10)])"

declare digits.simps [simp del]

definition toString :: "int \<Rightarrow> string" where
  "toString i = (if i < 0 then CHR ''-'' # digits (nat (- i)) else digits (nat i))"

text \<open>\<open>s.padStart(n, c)\<close> for a one-character filler \<open>c\<close>.\<close>

definition padStart :: "string \<Rightarrow> nat \<Rightarrow> char \<Rightarrow> string" where
  "padStart s n c = replicate (n - length s) c @ s"

text \<open>
  \<open>formatDate\<close> (src/App.tsx, lines 112-117): year, month and day of the month joined by
  dashes, month and day padded to two characters.
\<close>

definition formatDate :: "Date \<Rightarrow> string" where
  "formatDate dt =
     (let year = getFullYear dt;
          month = padStart (toString (getMonth dt + 1)) 2 (CHR ''0'');
          day = padStart (toString (getDate dt)) 2 (CHR ''0'')
      in toString year @ ''-'' @ month @ ''-'' @ day)"

section \<open>The schedule generator (src/App.tsx, lines 165-231)\<close>

text \<open>
  The override map \<open>manualChanges\<close> is a \<open>Record<string, string>\<close> from date strings to
  teacher ids or the sentinel \<open>'__EMPTY__'\<close>; the generator's \<open>fullSchedule\<close> is a
  \<open>Map<string, string | null>\<close>, with \<open>null\<close> written \<open>None\<close>.
\<close>

type_synonym ManualChanges = "string \<rightharpoonup> string"

type_synonym FullSchedule = "string \<rightharpoonup> string option"

datatype error = TypeError

text \<open>
  \<open>teacherIndexMap\<close> (lines 178-179): every teacher's id is set to its index, in roster
  order, so that a later teacher with the same id replaces an earlier one.
\<close>

definition teacherIndexMap :: "Teacher list \<Rightarrow> (string \<rightharpoonup> nat)" where
  "teacherIndexMap teachers =
     fold (\<lambda>(i, t) m. m(id' t \<mapsto> i)) (enumerate 0 teachers) Map.empty"

text \<open>
  The remainder operator \<open>%\<close> of the source language truncates towards zero (the result
  has the sign of the dividend) and yields \<open>NaN\<close>, here \<open>None\<close>, for the divisor 0.
\<close>

definition js_rem :: "int \<Rightarrow> int \<Rightarrow> int option" where
  "js_rem a b = (if b = 0 then None else Some (sgn a * (\<bar>a\<bar> mod \<bar>b\<bar>)))"

text \<open>
  Reading \<open>teachers[k].id\<close>: an index that is not a position of the array (or is
  \<open>NaN\<close>) yields \<open>undefined\<close>, whose \<open>id\<close> cannot be read.
\<close>

definition teacherIdAt :: "Teacher list \<Rightarrow> int option \<Rightarrow> error + string" where
  "teacherIdAt teachers k =
     (case k of
        None \<Rightarrow> Inl TypeError
      | Some i \<Rightarrow>
          if 0 \<le> i \<and> i < int (length teachers) then Inr (id' (teachers ! nat i))
          else Inl TypeError)"

text \<open>
  One day of the walk (lines 195-210): from the override found for the day and the
  rotation cursor \<open>teacherCycleIndex\<close>, the teacher assigned and the new cursor.  An
  override that is absent or the empty string is not truthy and leaves the day to the
  rotation.
\<close>

definition assignDay ::
  "Teacher list \<Rightarrow> (string \<rightharpoonup> nat) \<Rightarrow> string option \<Rightarrow> int \<Rightarrow> error + (string option \<times> int)"
where
  "assignDay teachers indexMap manualOverrideId teacherCycleIndex =
     (let rotation =
        (case teacherIdAt teachers (js_rem teacherCycleIndex (int (length teachers))) of
           Inl e \<Rightarrow> Inl e
         | Inr assignedTeacherId \<Rightarrow> Inr (Some assignedTeacherId, teacherCycleIndex + 1))
      in case manualOverrideId of
           None \<Rightarrow> rotation
         | Some ov \<Rightarrow>
             if ov = [] then rotation
             else if ov = ''__EMPTY__'' then Inr (None, teacherCycleIndex)
             else if indexMap ov \<noteq> None
               then Inr (Some ov, (case indexMap ov of Some i \<Rightarrow> int i | None \<Rightarrow> - 1) + 1)
             else Inr (None, teacherCycleIndex))"

text \<open>
  The \<open>while\<close> loop (lines 193-215), with its state passed explicitly: the date pointer,
  the rotation cursor and \<open>fullSchedule\<close>.  It returns the cursor and the schedule it
  ends with.  The loop test compares day numbers here, so that this walk always visits its
  last day; with the time of day (\<open>walk_tz\<close> below) the walk may end one day earlier.
\<close>

function walk ::
  "Teacher list \<Rightarrow> (string \<rightharpoonup> nat) \<Rightarrow> ManualChanges \<Rightarrow> Date \<Rightarrow>
     Date \<Rightarrow> int \<Rightarrow> FullSchedule \<Rightarrow> error + (int \<times> FullSchedule)"
where
  "walk teachers indexMap manualChanges lastDayOfVisibleMonth
        currentDatePointer teacherCycleIndex fullSchedule =
     (if dayNumber currentDatePointer \<le> dayNumber lastDayOfVisibleMonth then
        (let dateStr = formatDate currentDatePointer in
         case assignDay teachers indexMap (manualChanges dateStr) teacherCycleIndex of
           Inl e \<Rightarrow> Inl e
         | Inr (assignedTeacherId, teacherCycleIndex') \<Rightarrow>
             walk teachers indexMap manualChanges lastDayOfVisibleMonth
               (setDate currentDatePointer (getDate currentDatePointer + 1))
               teacherCycleIndex' (fullSchedule(dateStr \<mapsto> assignedTeacherId)))
      else Inr (teacherCycleIndex, fullSchedule))"
  by pat_completeness auto
termination
proof (relation "measure (\<lambda>(teachers, indexMap, manualChanges, lastDay, pointer, cursor, schedule).
    nat (dayNumber lastDay + 1 - dayNumber pointer))")
  show "wf (measure (\<lambda>(teachers, indexMap, manualChanges, lastDay, pointer, cursor, schedule).
    nat (dayNumber lastDay + 1 - dayNumber pointer)))"
    by simp
qed (simp add: dayNumber_setDate_succ)

declare walk.simps [simp del]

text \<open>
  \<open>generateSchedule\<close> (lines 172-227).  The start date arrives as the three numbers that
  line 175 reads from the well-formed string \<open>scheduleStartDate\<close>; \<open>currentDate\<close> is the
  date whose month is shown.  The result is the list handed to \<open>setShifts\<close>.  The two
  dates that bound the walk are named on their own: \<open>startDateOf\<close> is the source's
  \<open>globalStartDate\<close> (line 176) and \<open>lastDayOf\<close> its \<open>lastDayOfVisibleMonth\<close> (line 182).
\<close>

definition startDateOf :: "int \<times> int \<times> int \<Rightarrow> Date" where
  "startDateOf scheduleStartDate =
     (case scheduleStartDate of (startYear, startMonth, startDay) \<Rightarrow>
        new_Date startYear (startMonth - 1) startDay)"

definition lastDayOf :: "Date \<Rightarrow> Date" where
  "lastDayOf currentDate = new_Date (getFullYear currentDate) (getMonth currentDate + 1) 0"

definition generateSchedule ::
  "Teacher list \<Rightarrow> int \<times> int \<times> int \<Rightarrow> ManualChanges \<Rightarrow> Date \<Rightarrow> error + Shift list"
where
  "generateSchedule teachers scheduleStartDate manualChanges currentDate =
     (let globalStartDate = startDateOf scheduleStartDate;
          indexMap = teacherIndexMap teachers;
          lastDayOfVisibleMonth = lastDayOf currentDate;
          monthDates = getDatesInMonth (getFullYear currentDate) (getMonth currentDate)
      in if dayNumber globalStartDate > dayNumber lastDayOfVisibleMonth
         then Inr (map (\<lambda>d. \<lparr>date = formatDate d, teacherId = None\<rparr>) monthDates)
         else
           case walk teachers indexMap manualChanges lastDayOfVisibleMonth
                  globalStartDate 0 Map.empty of
             Inl e \<Rightarrow> Inl e
           | Inr (teacherCycleIndex, fullSchedule) \<Rightarrow>
               Inr (map (\<lambda>d.
                     if dayNumber d < dayNumber globalStartDate
                     then \<lparr>date = formatDate d, teacherId = None\<rparr>
                     else \<lparr>date = formatDate d,
                           teacherId = (case fullSchedule (formatDate d) of
                                          None \<Rightarrow> None | Some assigned \<Rightarrow> assigned)\<rparr>)
                   monthDates))"

text \<open>
  The effect that regenerates the schedule (lines 165-231): an empty roster gives every
  day of the month no teacher, without running the generator.
\<close>

definition regenerateSchedule ::
  "Teacher list \<Rightarrow> int \<times> int \<times> int \<Rightarrow> ManualChanges \<Rightarrow> Date \<Rightarrow> error + Shift list"
where
  "regenerateSchedule teachers scheduleStartDate manualChanges currentDate =
     (if length teachers = 0
      then Inr (map (\<lambda>d. \<lparr>date = formatDate d, teacherId = None\<rparr>)
                 (getDatesInMonth (getFullYear currentDate) (getMonth currentDate)))
      else generateSchedule teachers scheduleStartDate manualChanges currentDate)"

section \<open>Time of day and time zones\<close>

text \<open>
  A \<open>Date\<close> object of the platform holds a time value.  The source reads it through its
  local calendar fields, moves it with \<open>setDate\<close>, which keeps the local time of day, and
  compares two such objects by their time values (lines 184, 193 and 220).  The definitions
  above keep the calendar day of an object only and compare day numbers; that is what the
  code computes whenever the two objects compared carry the same local time of day.  This
  section adds the local time of day, in milliseconds after local midnight, and the time
  zone, and gives the generator once more with them.

  Of the time zone the model keeps the stretches of local time that its clocks skip when
  they are set forward: for the local day with a given day number, the time of day at which
  the skipped stretch begins and its length (length 0 when nothing is skipped that day).  A
  local time inside the stretch denotes the time later by the length of the stretch:
  with clocks set from 00:00 to 01:00, local midnight denotes 01:00 of that day.  A local
  time that occurs twice, when clocks are set back, denotes its first occurrence, so that
  the time values of two objects compare as their local day numbers and times of day do.
  Zones that skipped a whole calendar day, or in which a skipped stretch or the times it
  denotes reach into the next day, are not described.
\<close>

record Gap =
  gapStart :: nat
  gapLength :: nat

type_synonym TimeZone = "int \<Rightarrow> Gap"

text \<open>The time of day that the local time of day \<open>t\<close> denotes on the day numbered \<open>dayNo\<close>.\<close>

definition localTime :: "TimeZone \<Rightarrow> int \<Rightarrow> int \<Rightarrow> int" where
  "localTime tz dayNo t =
     (let g = tz dayNo
      in if int (gapStart g) \<le> t \<and> t < int (gapStart g) + int (gapLength g)
         then t + int (gapLength g) else t)"

text \<open>A \<open>Date\<close> object with its time of day: the local calendar day and the local time.\<close>

record DateTime =
  calendarDay :: Date
  timeInDay :: int

text \<open>
  \<open>new Date(year, month, day)\<close> is local midnight of the day that the three numbers denote,
  and \<open>date.setDate(n)\<close> is the local time of day of \<open>date\<close> on the day that its year, its
  month and \<open>n\<close> denote.
\<close>

definition new_DateTime :: "TimeZone \<Rightarrow> int \<Rightarrow> int \<Rightarrow> int \<Rightarrow> DateTime" where
  "new_DateTime tz y m d =
     (let day = new_Date y m d
      in \<lparr>calendarDay = day, timeInDay = localTime tz (dayNumber day) 0\<rparr>)"

definition setDate_tz :: "TimeZone \<Rightarrow> DateTime \<Rightarrow> int \<Rightarrow> DateTime" where
  "setDate_tz tz t n =
     (let day = setDate (calendarDay t) n
      in \<lparr>calendarDay = day, timeInDay = localTime tz (dayNumber day) (timeInDay t)\<rparr>)"

text \<open>The comparisons \<open>a < b\<close> and \<open>a <= b\<close> of two objects; \<open>a > b\<close> is \<open>b < a\<close>.\<close>

definition less_DateTime :: "DateTime \<Rightarrow> DateTime \<Rightarrow> bool" where
  "less_DateTime a b =
     (dayNumber (calendarDay a) < dayNumber (calendarDay b) \<or>
      dayNumber (calendarDay a) = dayNumber (calendarDay b) \<and> timeInDay a < timeInDay b)"

definition le_DateTime :: "DateTime \<Rightarrow> DateTime \<Rightarrow> bool" where
  "le_DateTime a b = (\<not> less_DateTime b a)"

lemma calendarDay_setDate_tz [simp]:
  "calendarDay (setDate_tz tz t n) = setDate (calendarDay t) n"
  by (simp add: setDate_tz_def Let_def)

lemma le_DateTime_days:
  "le_DateTime a b \<Longrightarrow> dayNumber (calendarDay a) \<le> dayNumber (calendarDay b)"
  by (auto simp: le_DateTime_def less_DateTime_def)

text \<open>\<open>getDatesInMonth\<close> (lines 101-109) and the loop of the generator (lines 193-215).\<close>

function getDatesInMonth_tz_loop ::
  "TimeZone \<Rightarrow> int \<Rightarrow> DateTime \<Rightarrow> DateTime list \<Rightarrow> DateTime list" where
  "getDatesInMonth_tz_loop tz month dt dates =
     (if getMonth (calendarDay dt) = month
      then getDatesInMonth_tz_loop tz month
             (setDate_tz tz dt (getDate (calendarDay dt) + 1)) (dates @ [dt])
      else dates)"
  by pat_completeness auto
termination
proof (relation "measure (\<lambda>(tz, month, dt, dates).
    if getMonth (calendarDay dt) \<noteq> month then 0
    else if validDate (calendarDay dt)
      then nat (DaysInMonth (getFullYear (calendarDay dt)) (getMonth (calendarDay dt))
                - getDate (calendarDay dt) + 1)
    else 33)")
  show "wf (measure (\<lambda>(tz, month, dt, dates).
    if getMonth (calendarDay dt) \<noteq> month then 0
    else if validDate (calendarDay dt)
      then nat (DaysInMonth (getFullYear (calendarDay dt)) (getMonth (calendarDay dt))
                - getDate (calendarDay dt) + 1)
    else 33))"
    by simp
next
  fix tz :: TimeZone and month :: int and dt :: DateTime and dates :: "DateTime list"
  assume same: "getMonth (calendarDay dt) = month"
  let ?t = "calendarDay dt"
  let ?next = "setDate ?t (getDate ?t + 1)"
  have nv: "validDate ?next" by (rule setDate_valid)
  have "\<And>D d :: int. 1 \<le> d \<Longrightarrow> D \<le> 31 \<Longrightarrow> nat (D - d + 1) < 33"
    by arith
  then have small: "nat (DaysInMonth (getFullYear ?next) (getMonth ?next) - getDate ?next + 1) < 33"
    using nv DaysInMonth_bounds [of "getFullYear ?next" "getMonth ?next"]
    by (simp add: validDate_def)
  show "((tz, month, setDate_tz tz dt (getDate (calendarDay dt) + 1), dates @ [dt]), tz, month, dt, dates)
      \<in> measure (\<lambda>(tz, month, dt, dates).
        if getMonth (calendarDay dt) \<noteq> month then 0
        else if validDate (calendarDay dt)
          then nat (DaysInMonth (getFullYear (calendarDay dt)) (getMonth (calendarDay dt))
                    - getDate (calendarDay dt) + 1)
        else 33)"
  proof (cases "validDate ?t")
    case False
    with same nv small show ?thesis by auto
  next
    case True
    then have "1 \<le> getDate ?t" "getDate ?t \<le> DaysInMonth (getFullYear ?t) (getMonth ?t)"
      by (simp_all add: validDate_def)
    with same True nv show ?thesis
      by (simp add: setDate_succ [OF True])
  qed
qed

declare getDatesInMonth_tz_loop.simps [simp del]

definition getDatesInMonth_tz :: "TimeZone \<Rightarrow> int \<Rightarrow> int \<Rightarrow> DateTime list" where
  "getDatesInMonth_tz tz year month =
     getDatesInMonth_tz_loop tz month (new_DateTime tz year month 1) []"

function walk_tz ::
  "TimeZone \<Rightarrow> Teacher list \<Rightarrow> (string \<rightharpoonup> nat) \<Rightarrow> ManualChanges \<Rightarrow> DateTime \<Rightarrow>
     DateTime \<Rightarrow> int \<Rightarrow> FullSchedule \<Rightarrow> error + (int \<times> FullSchedule)"
where
  "walk_tz tz teachers indexMap manualChanges lastDayOfVisibleMonth
        currentDatePointer teacherCycleIndex fullSchedule =
     (if le_DateTime currentDatePointer lastDayOfVisibleMonth then
        (let dateStr = formatDate (calendarDay currentDatePointer) in
         case assignDay teachers indexMap (manualChanges dateStr) teacherCycleIndex of
           Inl e \<Rightarrow> Inl e
         | Inr (assignedTeacherId, teacherCycleIndex') \<Rightarrow>
             walk_tz tz teachers indexMap manualChanges lastDayOfVisibleMonth
               (setDate_tz tz currentDatePointer (getDate (calendarDay currentDatePointer) + 1))
               teacherCycleIndex' (fullSchedule(dateStr \<mapsto> assignedTeacherId)))
      else Inr (teacherCycleIndex, fullSchedule))"
  by pat_completeness auto
termination
proof (relation "measure (\<lambda>(tz, teachers, indexMap, manualChanges, lastDay, pointer, cursor, schedule).
    nat (dayNumber (calendarDay lastDay) + 1 - dayNumber (calendarDay pointer)))")
  show "wf (measure (\<lambda>(tz, teachers, indexMap, manualChanges, lastDay, pointer, cursor, schedule).
    nat (dayNumber (calendarDay lastDay) + 1 - dayNumber (calendarDay pointer))))"
    by simp
next
  fix tz :: TimeZone and teachers :: "Teacher list" and indexMap :: "string \<rightharpoonup> nat"
    and manualChanges :: ManualChanges and lastDay pointer :: DateTime and cursor :: int
    and schedule :: FullSchedule and x :: string and xa :: "string option \<times> int"
    and xb :: "string option" and y :: int
  assume "le_DateTime pointer lastDay"
  then have "dayNumber (calendarDay pointer) \<le> dayNumber (calendarDay lastDay)"
    by (rule le_DateTime_days)
  then show "((tz, teachers, indexMap, manualChanges, lastDay,
        setDate_tz tz pointer (getDate (calendarDay pointer) + 1), y, schedule(x \<mapsto> xb)),
       tz, teachers, indexMap, manualChanges, lastDay, pointer, cursor, schedule)
      \<in> measure (\<lambda>(tz, teachers, indexMap, manualChanges, lastDay, pointer, cursor, schedule).
        nat (dayNumber (calendarDay lastDay) + 1 - dayNumber (calendarDay pointer)))"
    by (simp add: dayNumber_setDate_succ)
qed

declare walk_tz.simps [simp del]

text \<open>
  \<open>generateSchedule\<close> and the effect around it (lines 165-231) with these dates.  Of
  \<open>currentDate\<close> only the year and the month are read.
\<close>

definition startDateOf_tz :: "TimeZone \<Rightarrow> int \<times> int \<times> int \<Rightarrow> DateTime" where
  "startDateOf_tz tz scheduleStartDate =
     (case scheduleStartDate of (startYear, startMonth, startDay) \<Rightarrow>
        new_DateTime tz startYear (startMonth - 1) startDay)"

definition lastDayOf_tz :: "TimeZone \<Rightarrow> Date \<Rightarrow> DateTime" where
  "lastDayOf_tz tz currentDate =
     new_DateTime tz (getFullYear currentDate) (getMonth currentDate + 1) 0"

definition generateSchedule_tz ::
  "TimeZone \<Rightarrow> Teacher list \<Rightarrow> int \<times> int \<times> int \<Rightarrow> ManualChanges \<Rightarrow> Date \<Rightarrow>
     error + Shift list"
where
  "generateSchedule_tz tz teachers scheduleStartDate manualChanges currentDate =
     (let globalStartDate = startDateOf_tz tz scheduleStartDate;
          indexMap = teacherIndexMap teachers;
          lastDayOfVisibleMonth = lastDayOf_tz tz currentDate;
          monthDates = getDatesInMonth_tz tz (getFullYear currentDate) (getMonth currentDate)
      in if less_DateTime lastDayOfVisibleMonth globalStartDate
         then Inr (map (\<lambda>d. \<lparr>date = formatDate (calendarDay d), teacherId = None\<rparr>) monthDates)
         else
           case walk_tz tz teachers indexMap manualChanges lastDayOfVisibleMonth
                  globalStartDate 0 Map.empty of
             Inl e \<Rightarrow> Inl e
           | Inr (teacherCycleIndex, fullSchedule) \<Rightarrow>
               Inr (map (\<lambda>d.
                     if less_DateTime d globalStartDate
                     then \<lparr>date = formatDate (calendarDay d), teacherId = None\<rparr>
                     else \<lparr>date = formatDate (calendarDay d),
                           teacherId = (case fullSchedule (formatDate (calendarDay d)) of
                                          None \<Rightarrow> None | Some assigned \<Rightarrow> assigned)\<rparr>)
                   monthDates))"

definition regenerateSchedule_tz ::
  "TimeZone \<Rightarrow> Teacher list \<Rightarrow> int \<times> int \<times> int \<Rightarrow> ManualChanges \<Rightarrow> Date \<Rightarrow>
     error + Shift list"
where
  "regenerateSchedule_tz tz teachers scheduleStartDate manualChanges currentDate =
     (if length teachers = 0
      then Inr (map (\<lambda>d. \<lparr>date = formatDate (calendarDay d), teacherId = None\<rparr>)
                 (getDatesInMonth_tz tz (getFullYear currentDate) (getMonth currentDate)))
      else generateSchedule_tz tz teachers scheduleStartDate manualChanges currentDate)"

section \<open>State and event handlers (src/App.tsx, lines 254-312)\<close>

text \<open>
  The four pieces of state that the handlers read and replace.  Each handler takes the
  state and returns the state after the updates it queues.
\<close>

record AppState =
  teachers :: "Teacher list"
  scheduleStartDate :: string
  manualChanges :: ManualChanges
  dateColors :: "string \<rightharpoonup> string"

text \<open>
  \<open>handleDeleteTeacher\<close> (lines 254-265) copies into a new map every override whose
  value differs from the deleted id, and filters the teacher out of the roster.
\<close>

definition handleDeleteTeacher :: "string \<Rightarrow> AppState \<Rightarrow> AppState" where
  "handleDeleteTeacher deletedId s =
     s\<lparr>manualChanges :=
         (\<lambda>k. case manualChanges s k of
                None \<Rightarrow> None
              | Some v \<Rightarrow> if v \<noteq> deletedId then Some v else None),
       teachers := filter (\<lambda>t. id' t \<noteq> deletedId) (teachers s)\<rparr>"




text \<open>\<open>handleStartDateChange\<close> (lines 305-312), applied to the value of the input.\<close>

definition handleStartDateChange :: "string \<Rightarrow> AppState \<Rightarrow> AppState" where
  "handleStartDateChange newDate s =
     (if newDate \<noteq> []
      then s\<lparr>scheduleStartDate := newDate, manualChanges := Map.empty, dateColors := Map.empty\<rparr>
      else s)"

section \<open>Observations of the walk, and examples\<close>

text \<open>
  Three observations of the generator's walk from the start date, in which the claims are
  stated: the rotation cursor with which the walk leaves a day (the cursor at the end of
  the walk that stops on that day), the cursor with which it arrives at a day (the
  cursor it leaves the day before with), and the entry of \<open>fullSchedule\<close> for a day
  when the walk to a given last day has ended.  An entry \<open>Some None\<close> is a day
  explicitly assigned nobody.
\<close>

definition cursorAfter :: "Teacher list \<Rightarrow> ManualChanges \<Rightarrow> Date \<Rightarrow> Date \<Rightarrow> int option" where
  "cursorAfter ts mc start d =
     (case walk ts (teacherIndexMap ts) mc d start 0 Map.empty of
        Inl e \<Rightarrow> None
      | Inr (c, S) \<Rightarrow> Some c)"

definition cursorBefore :: "Teacher list \<Rightarrow> ManualChanges \<Rightarrow> Date \<Rightarrow> Date \<Rightarrow> int option" where
  "cursorBefore ts mc start d = cursorAfter ts mc start (setDate d (getDate d - 1))"

definition assignedOn ::
  "Teacher list \<Rightarrow> ManualChanges \<Rightarrow> Date \<Rightarrow> Date \<Rightarrow> Date \<Rightarrow> string option option" where
  "assignedOn ts mc start lastDay d =
     (case walk ts (teacherIndexMap ts) mc lastDay start 0 Map.empty of
        Inl e \<Rightarrow> None
      | Inr (c, S) \<Rightarrow> S (formatDate d))"

text \<open>An override that assigns nobody and leaves the cursor alone: the sentinel or an id
  that is not in the roster.\<close>

definition inertOverride :: "Teacher list \<Rightarrow> string option \<Rightarrow> bool" where
  "inertOverride ts ov =
     (case ov of
        None \<Rightarrow> False
      | Some v \<Rightarrow> v \<noteq> [] \<and> (v = ''__EMPTY__'' \<or> v \<notin> id' ` set ts))"

text \<open>
  Two observations of the walk with the time of day.  \<open>arrivalTime\<close> is the time of day
  that a pointer has when \<open>setDate\<close>, day after day, has brought it from the day numbered
  \<open>dayNo\<close>, where its time of day is \<open>t\<close>, to the day numbered \<open>target\<close>.
  \<open>walkedLastDay\<close> is the last calendar day that the walk from \<open>start\<close> visits: the day
  of \<open>lastDay\<close> when the pointer arrives there no later than \<open>lastDay\<close>, the day before
  otherwise.
\<close>

function arrivalTime :: "TimeZone \<Rightarrow> int \<Rightarrow> int \<Rightarrow> int \<Rightarrow> int" where
  "arrivalTime tz t dayNo target =
     (if dayNo < target then arrivalTime tz (localTime tz (dayNo + 1) t) (dayNo + 1) target
      else t)"
  by pat_completeness auto
termination
  by (relation "measure (\<lambda>(tz, t, dayNo, target). nat (target - dayNo))") simp_all

declare arrivalTime.simps [simp del]

definition walkedLastDay :: "TimeZone \<Rightarrow> DateTime \<Rightarrow> DateTime \<Rightarrow> Date" where
  "walkedLastDay tz start lastDay =
     (if arrivalTime tz (timeInDay start) (dayNumber (calendarDay start))
           (dayNumber (calendarDay lastDay)) \<le> timeInDay lastDay
      then calendarDay lastDay
      else setDate (calendarDay lastDay) (getDate (calendarDay lastDay) - 1))"

text \<open>The teacher whose turn it is at a cursor that is not negative.\<close>

definition rotationTeacher :: "Teacher list \<Rightarrow> int \<Rightarrow> string" where
  "rotationTeacher ts c = id' (ts ! (nat c mod length ts))"

text \<open>The days of January 2024, for the examples.\<close>

definition jan :: "int \<Rightarrow> Date" where
  "jan k = \<lparr>getFullYear = 2024, getMonth = 0, getDate = k\<rparr>"

text \<open>
  The days of September 2024, and the time zone America/Santiago as far as that month
  goes: in the night to 2024-09-08 the clocks are set from 00:00 to 01:00, so that the
  first hour of that day is skipped; no other local time of the month is.
\<close>

definition sep :: "int \<Rightarrow> Date" where
  "sep k = \<lparr>getFullYear = 2024, getMonth = 8, getDate = k\<rparr>"

definition santiago :: TimeZone where
  "santiago dayNo =
     (if dayNo = dayNumber (sep 8) then \<lparr>gapStart = 0, gapLength = 3600000\<rparr>
      else \<lparr>gapStart = 0, gapLength = 0\<rparr>)"

text \<open>A time zone whose clocks are never set forward, such as UTC or Asia/Ho_Chi_Minh.\<close>

definition steadyZone :: TimeZone where
  "steadyZone dayNo = \<lparr>gapStart = 0, gapLength = 0\<rparr>"

text \<open>
  The deletion scenario of the specification: roster \<open>[A, B, C]\<close> and an override \<open>B\<close>
  for 2024-01-02, start date 2024-01-01; then \<open>B\<close> is deleted.
\<close>

definition deleteScenario :: AppState where
  "deleteScenario =
     \<lparr>teachers = [\<lparr>id' = ''A'', name = ''An''\<rparr>, \<lparr>id' = ''B'', name = ''Binh''\<rparr>,
                  \<lparr>id' = ''C'', name = ''Chi''\<rparr>],
      scheduleStartDate = ''2024-01-01'',
      manualChanges = [''2024-01-02'' \<mapsto> ''B''],
      dateColors = Map.empty\<rparr>"

section \<open>The days of the visible month\<close>

lemma new_Date_valid: "validDate (new_Date y m d)"
  unfolding new_Date_def by (rule MakeDate_valid)

lemma DaysInMonth_pos: "1 \<le> DaysInMonth y m"
  using DaysInMonth_bounds [of y m] by simp

lemma new_Date_first:
  assumes "0 \<le> m" "m < 12"
  shows "new_Date y m 1 = \<lparr>getFullYear = fullYear y, getMonth = m, getDate = 1\<rparr>"
  using assms DaysInMonth_pos by (simp add: new_Date_def MakeDate_def normalise_id)

lemma new_Date_last:
  assumes "0 \<le> m" "m < 12"
  shows "new_Date y (m + 1) 0 =
     \<lparr>getFullYear = fullYear y, getMonth = m, getDate = DaysInMonth (fullYear y) m\<rparr>"
proof (cases "m = 11")
  case True
  have "new_Date y (m + 1) 0 = normalise (fullYear y + 1) 0 0"
    using True by (simp add: new_Date_def MakeDate_def)
  also have "\<dots> = normalise (fullYear y) 11 (DaysInMonth (fullYear y) 11)"
    by (subst normalise.simps) simp
  finally show ?thesis using True DaysInMonth_pos by (simp add: normalise_id)
next
  case False
  with assms have "(m + 1) div 12 = 0" "(m + 1) mod 12 = m + 1" by simp_all
  then have "new_Date y (m + 1) 0 = normalise (fullYear y) (m + 1) 0"
    by (simp add: new_Date_def MakeDate_def)
  also have "\<dots> = normalise (fullYear y) m (DaysInMonth (fullYear y) m)"
    using assms by (subst normalise.simps) simp
  finally show ?thesis using DaysInMonth_pos by (simp add: normalise_id)
qed

lemma getDatesInMonth_loop_days:
  assumes "0 \<le> m" "m < 12" "1 \<le> d" "d \<le> DaysInMonth y m"
  shows "getDatesInMonth_loop m \<lparr>getFullYear = y, getMonth = m, getDate = d\<rparr> acc =
     acc @ map (\<lambda>k. \<lparr>getFullYear = y, getMonth = m, getDate = k\<rparr>) [d..DaysInMonth y m]"
  using assms(3,4)
proof (induction "nat (DaysInMonth y m - d)" arbitrary: d acc)
  case 0
  then have d: "d = DaysInMonth y m" by simp
  let ?t = "\<lparr>getFullYear = y, getMonth = m, getDate = d\<rparr>"
  have v: "validDate ?t" using assms(1,2) 0 by (simp add: validDate_def)
  have "getMonth (setDate ?t (getDate ?t + 1)) \<noteq> m"
    using d assms(1,2) setDate_succ [OF v] by simp
  then have "getDatesInMonth_loop m (setDate ?t (getDate ?t + 1)) (acc @ [?t]) = acc @ [?t]"
    by (subst getDatesInMonth_loop.simps) simp
  then have "getDatesInMonth_loop m ?t acc = acc @ [?t]"
    by (subst getDatesInMonth_loop.simps) simp
  then show ?case using d by simp
next
  case (Suc n)
  then have lt: "d < DaysInMonth y m" by simp
  let ?t = "\<lparr>getFullYear = y, getMonth = m, getDate = d\<rparr>"
  have v: "validDate ?t" using assms(1,2) Suc.prems by (simp add: validDate_def)
  have nx: "setDate ?t (d + 1) = \<lparr>getFullYear = y, getMonth = m, getDate = d + 1\<rparr>"
    using lt setDate_succ [OF v] by simp
  have "getDatesInMonth_loop m ?t acc
      = getDatesInMonth_loop m \<lparr>getFullYear = y, getMonth = m, getDate = d + 1\<rparr> (acc @ [?t])"
    by (subst getDatesInMonth_loop.simps) (simp add: nx)
  also have "\<dots> = (acc @ [?t]) @
      map (\<lambda>k. \<lparr>getFullYear = y, getMonth = m, getDate = k\<rparr>) [d + 1..DaysInMonth y m]"
    using Suc.hyps(2) Suc.prems lt by (intro Suc.hyps(1)) simp_all
  also have "\<dots> = acc @ map (\<lambda>k. \<lparr>getFullYear = y, getMonth = m, getDate = k\<rparr>) [d..DaysInMonth y m]"
    using lt by (simp add: upto_rec1 [of d])
  finally show ?case .
qed

lemma getDatesInMonth_days:
  assumes "0 \<le> m" "m < 12"
  shows "getDatesInMonth y m =
     map (\<lambda>k. \<lparr>getFullYear = fullYear y, getMonth = m, getDate = k\<rparr>)
       [1..DaysInMonth (fullYear y) m]"
  unfolding getDatesInMonth_def new_Date_first [OF assms]
  using getDatesInMonth_loop_days [OF assms order_refl DaysInMonth_pos, where acc = "[]"]
  by simp

section \<open>Date strings identify dates\<close>

lemma digitChar_inj:
  assumes "n < 10" "m < 10" "digitChar n = digitChar m"
  shows "n = m"
proof -
  have "distinct ''0123456789''" by simp
  moreover have "n < length ''0123456789''" "m < length ''0123456789''"
    using assms by simp_all
  ultimately show ?thesis
    using assms(3) unfolding digitChar_def by (simp only: nth_eq_iff_index_eq)
qed

lemma digitChar_not_minus: "n < 10 \<Longrightarrow> digitChar n \<noteq> CHR ''-''"
proof -
  assume "n < 10"
  then have "digitChar n \<in> set ''0123456789''"
    unfolding digitChar_def by (intro nth_mem) simp
  then show ?thesis by auto
qed

lemma digits_nonempty: "digits n \<noteq> []"
  by (subst digits.simps) simp

lemma digits_last: "last (digits n) = digitChar (n mod 10)"
  by (subst digits.simps) simp

lemma digits_butlast: "butlast (digits n) = (if n < 10 then [] else digits (n div 10))"
  by (subst digits.simps) simp

lemma digits_inj: "digits n = digits m \<Longrightarrow> n = m"
proof (induction n arbitrary: m rule: digits.induct)
  case (1 n)
  from 1(2) have l: "digitChar (n mod 10) = digitChar (m mod 10)"
    using digits_last [of n] digits_last [of m] by simp
  then have md: "n mod 10 = m mod 10"
    by (intro digitChar_inj) simp_all
  from 1(2) have b: "(if n < 10 then [] else digits (n div 10)) =
      (if m < 10 then [] else digits (m div 10))"
    using digits_butlast [of n] digits_butlast [of m] by simp
  show ?case
  proof (cases "n < 10")
    case True
    with b have "m < 10" using digits_nonempty [of "m div 10"] by (auto split: if_splits)
    with True md show ?thesis by simp
  next
    case False
    with b have m: "\<not> m < 10" using digits_nonempty [of "n div 10"] by (auto split: if_splits)
    with False b have "digits (n div 10) = digits (m div 10)" by simp
    with False have "n div 10 = m div 10" by (intro 1(1)) simp_all
    with md show ?thesis by (metis div_mult_mod_eq)
  qed
qed

lemma digits_hd_not_minus: "hd (digits n) \<noteq> CHR ''-''"
proof (induction n rule: digits.induct)
  case (1 n)
  show ?case
  proof (cases "n < 10")
    case True
    then show ?thesis using digitChar_not_minus [of n] by (subst digits.simps) simp
  next
    case False
    with 1 digits_nonempty [of "n div 10"] show ?thesis
      by (subst digits.simps) simp
  qed
qed

lemma toString_inj: "toString i = toString j \<Longrightarrow> i = j"
proof -
  assume eq: "toString i = toString j"
  have neg: False if "a < 0" "\<not> b < 0" "toString a = toString b" for a b
  proof -
    from that have "CHR ''-'' # digits (nat (- a)) = digits (nat b)"
      by (simp add: toString_def)
    then have "hd (digits (nat b)) = CHR ''-''" by (metis list.sel(1))
    then show False using digits_hd_not_minus by blast
  qed
  show ?thesis
  proof (cases "i < 0")
    case True
    show ?thesis
    proof (cases "j < 0")
      case j: True
      with True eq have "nat (- i) = nat (- j)"
        by (intro digits_inj) (simp add: toString_def)
      with True j show ?thesis by simp
    next
      case False
      with True eq neg [of i j] show ?thesis by simp
    qed
  next
    case False
    show ?thesis
    proof (cases "j < 0")
      case True
      with False eq neg [of j i] show ?thesis by simp
    next
      case j: False
      with False eq have "nat i = nat j"
        by (intro digits_inj) (simp add: toString_def)
      with False j show ?thesis by simp
    qed
  qed
qed

text \<open>Month and day of a date in range are padded to exactly two characters.\<close>

lemma pad2:
  assumes "0 \<le> i" "i < 100"
  shows "padStart (toString i) 2 (CHR ''0'') =
     [digitChar (nat i div 10), digitChar (nat i mod 10)]"
proof (cases "i < 10")
  case True
  with assms have "nat i < 10" by simp
  then have "digits (nat i) = [digitChar (nat i)]"
    by (subst digits.simps) simp
  moreover have "digitChar 0 = CHR ''0''" by (simp add: digitChar_def)
  ultimately show ?thesis using assms True by (simp add: padStart_def toString_def)
next
  case False
  with assms have "nat i div 10 < 10" by simp
  then have "digits (nat i div 10) = [digitChar (nat i div 10)]"
    by (subst digits.simps) simp
  with False have "digits (nat i) = [digitChar (nat i div 10), digitChar (nat i mod 10)]"
    by (subst digits.simps) simp
  with assms show ?thesis by (simp add: padStart_def toString_def)
qed

lemma pad2_inj:
  assumes "0 \<le> i" "i < 100" "0 \<le> j" "j < 100"
    and "padStart (toString i) 2 (CHR ''0'') = padStart (toString j) 2 (CHR ''0'')"
  shows "i = j"
proof -
  from assms have "digitChar (nat i div 10) = digitChar (nat j div 10)"
    and "digitChar (nat i mod 10) = digitChar (nat j mod 10)"
    by (simp_all add: pad2)
  with assms(1-4) have "nat i div 10 = nat j div 10" "nat i mod 10 = nat j mod 10"
    by (simp_all add: digitChar_inj)
  then have "nat i = nat j" by (metis div_mult_mod_eq)
  with assms(1,3) show ?thesis by simp
qed

lemma formatDate_inj:
  assumes "validDate t" "validDate u" "formatDate t = formatDate u"
  shows "t = u"
proof -
  have rt: "0 \<le> getMonth t + 1" "getMonth t + 1 < 100" "0 \<le> getDate t" "getDate t < 100"
    using assms(1) DaysInMonth_bounds [of "getFullYear t" "getMonth t"]
    by (simp_all add: validDate_def)
  have ru: "0 \<le> getMonth u + 1" "getMonth u + 1 < 100" "0 \<le> getDate u" "getDate u < 100"
    using assms(2) DaysInMonth_bounds [of "getFullYear u" "getMonth u"]
    by (simp_all add: validDate_def)
  let ?mt = "padStart (toString (getMonth t + 1)) 2 (CHR ''0'')"
  let ?mu = "padStart (toString (getMonth u + 1)) 2 (CHR ''0'')"
  let ?dt = "padStart (toString (getDate t)) 2 (CHR ''0'')"
  let ?du = "padStart (toString (getDate u)) 2 (CHR ''0'')"
  have len: "length (''-'' @ ?mt @ ''-'' @ ?dt) = length (''-'' @ ?mu @ ''-'' @ ?du)"
    using rt ru by (simp add: pad2)
  have "toString (getFullYear t) @ (''-'' @ ?mt @ ''-'' @ ?dt)
      = toString (getFullYear u) @ (''-'' @ ?mu @ ''-'' @ ?du)"
    using assms(3) by (simp add: formatDate_def Let_def)
  then have "toString (getFullYear t) = toString (getFullYear u) \<and>
      ''-'' @ ?mt @ ''-'' @ ?dt = ''-'' @ ?mu @ ''-'' @ ?du"
    using append_eq_append_conv [OF disjI2 [OF len]] by blast
  then have y: "toString (getFullYear t) = toString (getFullYear u)"
    and rest: "?mt @ (''-'' @ ?dt) = ?mu @ (''-'' @ ?du)"
    by simp_all
  have lm: "length ?mt = length ?mu" using rt ru by (simp add: pad2)
  have "?mt = ?mu \<and> ''-'' @ ?dt = ''-'' @ ?du"
    using append_eq_append_conv [OF disjI1 [OF lm]] rest by blast
  then have m: "?mt = ?mu" and d: "?dt = ?du"
    by simp_all
  have "getFullYear t = getFullYear u" using y by (rule toString_inj)
  moreover have "getMonth t + 1 = getMonth u + 1"
    using rt(1,2) ru(1,2) m by (rule pad2_inj)
  moreover have "getDate t = getDate u"
    using rt(3,4) ru(3,4) d by (rule pad2_inj)
  ultimately show ?thesis by simp
qed

section \<open>The index map and one day of the walk\<close>

lemma teacherIndexMap_snoc:
  "teacherIndexMap (ts @ [t]) = (teacherIndexMap ts)(id' t \<mapsto> length ts)"
  by (simp add: teacherIndexMap_def enumerate_append_eq)

lemma teacherIndexMap_None: "teacherIndexMap ts v = None \<longleftrightarrow> v \<notin> id' ` set ts"
proof (induction ts rule: rev_induct)
  case Nil
  show ?case by (simp add: teacherIndexMap_def)
next
  case (snoc t ts)
  then show ?case by (auto simp: teacherIndexMap_snoc)
qed

lemma teacherIndexMap_distinct:
  "distinct (map id' ts) \<Longrightarrow> i < length ts \<Longrightarrow> teacherIndexMap ts (id' (ts ! i)) = Some i"
proof (induction ts rule: rev_induct)
  case Nil
  then show ?case by simp
next
  case (snoc t ts)
  show ?case
  proof (cases "i < length ts")
    case True
    then have "id' (ts ! i) \<in> id' ` set ts" by simp
    with snoc.prems(1) have "id' (ts ! i) \<noteq> id' t" by auto
    with snoc True show ?thesis by (simp add: teacherIndexMap_snoc nth_append)
  next
    case False
    with snoc.prems(2) have "i = length ts" by simp
    then show ?thesis by (simp add: teacherIndexMap_snoc)
  qed
qed

lemma js_rem_nonneg:
  assumes "0 \<le> c" "0 < n"
  shows "js_rem c n = Some (c mod n)"
proof (cases "c = 0")
  case True
  then show ?thesis using assms by (simp add: js_rem_def)
next
  case False
  with assms have "sgn c = 1" by simp
  with assms show ?thesis by (simp add: js_rem_def)
qed

lemma teacherIdAt_rotation:
  assumes "ts \<noteq> []" "0 \<le> c"
  shows "teacherIdAt ts (js_rem c (int (length ts))) = Inr (rotationTeacher ts c)"
proof -
  have n: "0 < int (length ts)" using assms(1) by simp
  have "nat (c mod int (length ts)) = nat c mod length ts"
    using assms(2) by (simp add: nat_mod_distrib)
  moreover have "c mod int (length ts) < int (length ts)" "0 \<le> c mod int (length ts)"
    using n by simp_all
  ultimately show ?thesis
    using js_rem_nonneg [OF assms(2) n] by (simp add: teacherIdAt_def rotationTeacher_def)
qed

lemma assignDay_rotation:
  assumes "ts \<noteq> []" "0 \<le> c" "ov = None \<or> ov = Some []"
  shows "assignDay ts im ov c = Inr (Some (rotationTeacher ts c), c + 1)"
  using assms(3) teacherIdAt_rotation [OF assms(1,2)]
  by (auto simp: assignDay_def)

lemma assignDay_sentinel: "assignDay ts im (Some ''__EMPTY__'') c = Inr (None, c)"
  by (simp add: assignDay_def)

lemma assignDay_stale:
  "v \<noteq> [] \<Longrightarrow> im v = None \<Longrightarrow> assignDay ts im (Some v) c = Inr (None, c)"
  by (simp add: assignDay_def)

lemma assignDay_pick:
  "v \<noteq> [] \<Longrightarrow> v \<noteq> ''__EMPTY__'' \<Longrightarrow> im v = Some i \<Longrightarrow>
     assignDay ts im (Some v) c = Inr (Some v, int i + 1)"
  by (simp add: assignDay_def)

lemma assignDay_total:
  assumes "ts \<noteq> []" "0 \<le> c"
  shows "\<exists>a c'. assignDay ts im ov c = Inr (a, c') \<and> 0 \<le> c'"
proof (cases "ov = None \<or> ov = Some []")
  case True
  then show ?thesis using assignDay_rotation [OF assms True] assms(2) by simp
next
  case False
  then obtain v where v: "ov = Some v" "v \<noteq> []" by (cases ov) auto
  show ?thesis
  proof (cases "v = ''__EMPTY__''")
    case True
    with v assms(2) show ?thesis by (simp add: assignDay_sentinel)
  next
    case ne: False
    show ?thesis
    proof (cases "im v")
      case None
      with v assms(2) show ?thesis by (simp add: assignDay_stale)
    next
      case (Some i)
      with v ne show ?thesis by (simp add: assignDay_pick)
    qed
  qed
qed

section \<open>The walk\<close>

lemma walk_stop:
  "dayNumber lastDay < dayNumber ptr \<Longrightarrow> walk ts im mc lastDay ptr c S = Inr (c, S)"
  by (subst walk.simps) simp

lemma walk_step:
  assumes "dayNumber ptr \<le> dayNumber lastDay"
    and "assignDay ts im (mc (formatDate ptr)) c = Inr (a, c')"
  shows "walk ts im mc lastDay ptr c S =
     walk ts im mc lastDay (setDate ptr (getDate ptr + 1)) c' (S(formatDate ptr \<mapsto> a))"
  using assms by (subst walk.simps) (simp add: Let_def)

lemma walk_error:
  assumes "dayNumber ptr \<le> dayNumber lastDay"
    and "assignDay ts im (mc (formatDate ptr)) c = Inl e"
  shows "walk ts im mc lastDay ptr c S = Inl e"
  using assms by (subst walk.simps) (simp add: Let_def)

text \<open>Induction along the walk, for a fixed roster, override map and lastDay day.\<close>

lemma walk_induct [case_names stop step error]:
  "(\<And>ptr c S. dayNumber lastDay < dayNumber ptr \<Longrightarrow> P ptr c S) \<Longrightarrow>
   (\<And>ptr c S a c'. dayNumber ptr \<le> dayNumber lastDay \<Longrightarrow>
        assignDay ts im (mc (formatDate ptr)) c = Inr (a, c') \<Longrightarrow>
        P (setDate ptr (getDate ptr + 1)) c' (S(formatDate ptr \<mapsto> a)) \<Longrightarrow> P ptr c S) \<Longrightarrow>
   (\<And>ptr c S e. dayNumber ptr \<le> dayNumber lastDay \<Longrightarrow>
        assignDay ts im (mc (formatDate ptr)) c = Inl e \<Longrightarrow> P ptr c S) \<Longrightarrow>
   P ptr c S"
proof (induction ts im mc lastDay ptr c S rule: walk.induct)
  case (1 ts im mc lastDay ptr c S)
  note stop = 1(2) and step = 1(3) and error = 1(4)
  show ?case
  proof (cases "dayNumber ptr \<le> dayNumber lastDay")
    case False
    then have "dayNumber lastDay < dayNumber ptr" by linarith
    then show ?thesis by (rule stop)
  next
    case le: True
    show ?thesis
    proof (cases "assignDay ts im (mc (formatDate ptr)) c")
      case (Inl e)
      with le show ?thesis by (rule error)
    next
      case (Inr b)
      obtain a c' where b: "b = (a, c')" by (cases b)
      have "P (setDate ptr (getDate ptr + 1)) c' (S(formatDate ptr \<mapsto> a))"
      proof (rule 1(1) [OF le refl Inr])
        show "(a, c') = b" using b by simp
      qed (fact stop, fact step, fact error)
      moreover have "assignDay ts im (mc (formatDate ptr)) c = Inr (a, c')"
        using Inr b by simp
      ultimately show ?thesis using le step by blast
    qed
  qed
qed

text \<open>With a roster that is not empty and a cursor that is not negative, the walk ends.\<close>

lemma walk_total:
  assumes "ts \<noteq> []"
  shows "0 \<le> c \<Longrightarrow> \<exists>c' S'. walk ts im mc lastDay ptr c S = Inr (c', S') \<and> 0 \<le> c'"
proof (induction ptr c S rule: walk_induct [where lastDay = lastDay and ts = ts and im = im and mc = mc])
  case (stop ptr c S)
  then show ?case by (simp add: walk_stop)
next
  case (step ptr c S a c')
  from assignDay_total [OF assms step.prems, of im "mc (formatDate ptr)"] step.hyps(2)
  have "0 \<le> c'" by simp
  then have "\<exists>c'' S'. walk ts im mc lastDay (setDate ptr (getDate ptr + 1)) c'
      (S(formatDate ptr \<mapsto> a)) = Inr (c'', S') \<and> 0 \<le> c''"
    by (rule step.IH)
  then show ?case
    unfolding walk_step [where mc = mc and S = S, OF step.hyps(1,2)] .
next
  case (error ptr c S e)
  with assignDay_total [OF assms error.prems, of im "mc (formatDate ptr)"]
  show ?case by simp
qed

text \<open>The walk writes only the keys of the days it visits.\<close>

lemma walk_frame:
  assumes "validDate d"
  shows "validDate ptr \<Longrightarrow> dayNumber d < dayNumber ptr \<Longrightarrow>
     walk ts im mc lastDay ptr c S = Inr (c', S') \<Longrightarrow> S' (formatDate d) = S (formatDate d)"
proof (induction ptr c S rule: walk_induct [where lastDay = lastDay and ts = ts and im = im and mc = mc])
  case (stop ptr c S)
  then show ?case by (simp add: walk_stop)
next
  case (step ptr c S a c1)
  have "ptr \<noteq> d" using step.prems(2) by auto
  then have ne: "formatDate ptr \<noteq> formatDate d"
    using formatDate_inj [OF step.prems(1) assms] by blast
  have "S' (formatDate d) = (S(formatDate ptr \<mapsto> a)) (formatDate d)"
  proof (rule step.IH)
    show "validDate (setDate ptr (getDate ptr + 1))" by (rule setDate_valid)
    show "dayNumber d < dayNumber (setDate ptr (getDate ptr + 1))"
      using step.prems(2) by (simp add: dayNumber_setDate_succ)
    show "walk ts im mc lastDay (setDate ptr (getDate ptr + 1)) c1 (S(formatDate ptr \<mapsto> a))
        = Inr (c', S')"
      using step.prems(3) unfolding walk_step [where mc = mc and S = S, OF step.hyps(1,2)] .
  qed
  with ne show ?case by simp
next
  case (error ptr c S e)
  then show ?case by (simp add: walk_error)
qed

text \<open>
  The walk to a last day passes through every day \<open>d\<close> up to it, in the state in which
  the walk to the day before \<open>d\<close> ends.
\<close>

lemma walk_split:
  assumes "validDate d" "dayNumber d \<le> dayNumber lastDay" "dayNumber p + 1 = dayNumber d"
  shows "validDate ptr \<Longrightarrow> dayNumber ptr \<le> dayNumber d \<Longrightarrow>
     walk ts im mc p ptr c S = Inr (c1, S1) \<Longrightarrow>
     walk ts im mc lastDay ptr c S = walk ts im mc lastDay d c1 S1"
proof (induction ptr c S rule: walk_induct [where lastDay = p and ts = ts and im = im and mc = mc])
  case (stop ptr c S)
  then have "dayNumber ptr = dayNumber d" using assms(3) by simp
  with stop.prems(1) assms(1) have "ptr = d" by (intro dayNumber_inj)
  moreover have "c1 = c" "S1 = S" using stop by (simp_all add: walk_stop)
  ultimately show ?case by simp
next
  case (step ptr c S a c')
  have le: "dayNumber ptr \<le> dayNumber lastDay" using step.hyps(1) assms(2,3) by simp
  have "walk ts im mc lastDay (setDate ptr (getDate ptr + 1)) c' (S(formatDate ptr \<mapsto> a))
      = walk ts im mc lastDay d c1 S1"
  proof (rule step.IH)
    show "validDate (setDate ptr (getDate ptr + 1))" by (rule setDate_valid)
    show "dayNumber (setDate ptr (getDate ptr + 1)) \<le> dayNumber d"
      using step.hyps(1) assms(3) by (simp add: dayNumber_setDate_succ)
    show "walk ts im mc p (setDate ptr (getDate ptr + 1)) c' (S(formatDate ptr \<mapsto> a))
        = Inr (c1, S1)"
      using step.prems(3) unfolding walk_step [where mc = mc and S = S, OF step.hyps(1,2)] .
  qed
  then show ?case unfolding walk_step [where mc = mc and S = S, OF le step.hyps(2)] .
next
  case (error ptr c S e)
  then show ?case by (simp add: walk_error)
qed

lemma walk_lastDay_cong:
  assumes "dayNumber l1 = dayNumber l2"
  shows "walk ts im mc l1 ptr c S = walk ts im mc l2 ptr c S"
proof (induction ptr c S rule: walk_induct [where lastDay = l1 and ts = ts and im = im and mc = mc])
  case (stop ptr c S)
  then show ?case using assms by (simp add: walk_stop)
next
  case (step ptr c S a c')
  have le: "dayNumber ptr \<le> dayNumber l2" using step.hyps(1) assms by simp
  show ?case
    unfolding walk_step [where mc = mc and S = S, OF step.hyps(1,2)]
      walk_step [where mc = mc and S = S, OF le step.hyps(2)]
    by (rule step.IH)
next
  case (error ptr c S e)
  have le: "dayNumber ptr \<le> dayNumber l2" using error(1) assms by simp
  show ?case
    unfolding walk_error [where mc = mc, OF error(1,2)] walk_error [where mc = mc, OF le error(2)]
    by (rule refl)
qed

lemma dayNumber_setDate: "dayNumber (setDate t n) = dayNumber t + (n - getDate t)"
proof -
  have "dayNumber (setDate t n) = MakeDay (getFullYear t) (getMonth t) n"
    unfolding setDate_def by (rule MakeDate_dayNumber)
  then show ?thesis by (simp add: dayNumber_def MakeDay_def)
qed

text \<open>
  What the walk does on one day \<open>d\<close> between the start date and the last day: it arrives
  with the cursor of the walk that stops the day before, assigns what \<open>assignDay\<close> yields
  for that cursor, and leaves with the cursor \<open>assignDay\<close> yields; the assignment is still
  in the schedule when the walk ends.
\<close>

lemma walk_day:
  assumes ts: "ts \<noteq> []" and c0: "0 \<le> c0"
    and v: "validDate start" "validDate d"
    and range: "dayNumber start \<le> dayNumber d" "dayNumber d \<le> dayNumber lastDay"
  shows "\<exists>c S a c' c'' S''.
     walk ts im mc (setDate d (getDate d - 1)) start c0 S0 = Inr (c, S) \<and> 0 \<le> c \<and>
     assignDay ts im (mc (formatDate d)) c = Inr (a, c') \<and>
     walk ts im mc d start c0 S0 = Inr (c', S(formatDate d \<mapsto> a)) \<and>
     walk ts im mc lastDay start c0 S0 = Inr (c'', S'') \<and> S'' (formatDate d) = Some a"
proof -
  let ?p = "setDate d (getDate d - 1)"
  let ?n = "setDate d (getDate d + 1)"
  have p: "dayNumber ?p + 1 = dayNumber d" by (simp add: dayNumber_setDate)
  have n: "dayNumber d < dayNumber ?n" by (simp add: dayNumber_setDate)
  obtain c S where before: "walk ts im mc ?p start c0 S0 = Inr (c, S)" and c: "0 \<le> c"
    using walk_total [OF ts c0] by blast
  obtain a c' where day: "assignDay ts im (mc (formatDate d)) c = Inr (a, c')" and c': "0 \<le> c'"
    using assignDay_total [OF ts c] by blast
  have "walk ts im mc d start c0 S0 = walk ts im mc d d c S"
    using v(2) order_refl p v(1) range(1) before by (rule walk_split)
  also have "\<dots> = walk ts im mc d ?n c' (S(formatDate d \<mapsto> a))"
    using order_refl day by (rule walk_step [where mc = mc])
  also have "\<dots> = Inr (c', S(formatDate d \<mapsto> a))"
    using n by (rule walk_stop)
  finally have upto: "walk ts im mc d start c0 S0 = Inr (c', S(formatDate d \<mapsto> a))" .
  obtain c'' S'' where rest: "walk ts im mc lastDay ?n c' (S(formatDate d \<mapsto> a)) = Inr (c'', S'')"
    using walk_total [OF ts c'] by blast
  have "walk ts im mc lastDay start c0 S0 = walk ts im mc lastDay d c S"
    using v(2) range(2) p v(1) range(1) before by (rule walk_split)
  also have "\<dots> = walk ts im mc lastDay ?n c' (S(formatDate d \<mapsto> a))"
    using range(2) day by (rule walk_step [where mc = mc])
  finally have whole: "walk ts im mc lastDay start c0 S0 = Inr (c'', S'')"
    using rest by simp
  have "S'' (formatDate d) = (S(formatDate d \<mapsto> a)) (formatDate d)"
    using v(2) setDate_valid n rest by (rule walk_frame)
  then have "S'' (formatDate d) = Some a" by simp
  with before c day upto whole show ?thesis by blast
qed

section \<open>The walk, day by day\<close>

lemma assignDay_inert:
  assumes "inertOverride ts ov"
  shows "assignDay ts (teacherIndexMap ts) ov c = Inr (None, c)"
proof -
  from assms obtain v where v: "ov = Some v" "v \<noteq> []"
    and cases: "v = ''__EMPTY__'' \<or> v \<notin> id' ` set ts"
    by (cases ov) (auto simp: inertOverride_def)
  from cases show ?thesis
  proof
    assume "v = ''__EMPTY__''"
    with v show ?thesis by (simp add: assignDay_sentinel)
  next
    assume "v \<notin> id' ` set ts"
    then have "teacherIndexMap ts v = None" by (simp add: teacherIndexMap_None)
    with v show ?thesis by (simp add: assignDay_stale)
  qed
qed

lemma cursorBefore_start: "cursorBefore ts mc start start = Some 0"
proof -
  have "dayNumber (setDate start (getDate start - 1)) < dayNumber start"
    by (simp add: dayNumber_setDate)
  then show ?thesis by (simp add: cursorBefore_def cursorAfter_def walk_stop)
qed

lemma cursorAfter_cong:
  "dayNumber d = dayNumber e \<Longrightarrow> cursorAfter ts mc start d = cursorAfter ts mc start e"
  unfolding cursorAfter_def by (simp add: walk_lastDay_cong [of d e])

lemma cursorBefore_next:
  "dayNumber e = dayNumber d + 1 \<Longrightarrow> cursorBefore ts mc start e = cursorAfter ts mc start d"
  unfolding cursorBefore_def by (rule cursorAfter_cong) (simp add: dayNumber_setDate)

text \<open>The semantics of one day, in terms of the observations.\<close>

lemma day_semantics:
  assumes "ts \<noteq> []" "validDate start" "validDate d"
    and "dayNumber start \<le> dayNumber d" "dayNumber d \<le> dayNumber lastDay"
  shows "\<exists>c a c'. cursorBefore ts mc start d = Some c \<and> 0 \<le> c \<and>
     assignDay ts (teacherIndexMap ts) (mc (formatDate d)) c = Inr (a, c') \<and>
     cursorAfter ts mc start d = Some c' \<and>
     assignedOn ts mc start lastDay d = Some a"
proof -
  from walk_day [OF assms(1) order_refl assms(2-5), of "teacherIndexMap ts" mc Map.empty]
  obtain c S a c' c'' S'' where
    "walk ts (teacherIndexMap ts) mc (setDate d (getDate d - 1)) start 0 Map.empty = Inr (c, S)"
    "0 \<le> c" "assignDay ts (teacherIndexMap ts) (mc (formatDate d)) c = Inr (a, c')"
    "walk ts (teacherIndexMap ts) mc d start 0 Map.empty = Inr (c', S(formatDate d \<mapsto> a))"
    "walk ts (teacherIndexMap ts) mc lastDay start 0 Map.empty = Inr (c'', S'')"
    "S'' (formatDate d) = Some a"
    by blast
  then show ?thesis
    by (simp add: cursorBefore_def cursorAfter_def assignedOn_def)
qed

lemma cursor_inert_stretch:
  assumes ts: "ts \<noteq> []" and v: "validDate start" "validDate d"
    and sd: "dayNumber start \<le> dayNumber d"
    and after: "cursorAfter ts mc start d = Some c"
  shows "validDate d' \<Longrightarrow> dayNumber d < dayNumber d' \<Longrightarrow>
     (\<forall>e. validDate e \<longrightarrow> dayNumber d < dayNumber e \<longrightarrow> dayNumber e < dayNumber d' \<longrightarrow>
        inertOverride ts (mc (formatDate e))) \<Longrightarrow>
     cursorBefore ts mc start d' = Some c"
proof (induction "nat (dayNumber d' - dayNumber d - 1)" arbitrary: d')
  case 0
  then have "dayNumber d' = dayNumber d + 1" by simp
  then show ?case using after by (simp add: cursorBefore_next)
next
  case (Suc n)
  let ?e = "setDate d' (getDate d' - 1)"
  have e: "validDate ?e" "dayNumber d' = dayNumber ?e + 1"
    by (simp_all add: setDate_valid dayNumber_setDate)
  have de: "dayNumber d < dayNumber ?e" using Suc.hyps(2) e(2) by simp
  have "cursorBefore ts mc start ?e = Some c"
  proof (rule Suc.hyps(1))
    show "n = nat (dayNumber ?e - dayNumber d - 1)" using Suc.hyps(2) e(2) by simp
    show "validDate ?e" by (rule e(1))
    show "dayNumber d < dayNumber ?e" by (rule de)
    show "\<forall>x. validDate x \<longrightarrow> dayNumber d < dayNumber x \<longrightarrow> dayNumber x < dayNumber ?e \<longrightarrow>
        inertOverride ts (mc (formatDate x))"
      using Suc.prems(3) e(2) by simp
  qed
  moreover have "inertOverride ts (mc (formatDate ?e))"
    using Suc.prems(3) e de by simp
  moreover obtain c0 a c' where "cursorBefore ts mc start ?e = Some c0"
    "assignDay ts (teacherIndexMap ts) (mc (formatDate ?e)) c0 = Inr (a, c')"
    "cursorAfter ts mc start ?e = Some c'"
    using day_semantics [OF ts v(1) e(1) _ order_refl, of mc] sd de by force
  ultimately have "cursorAfter ts mc start ?e = Some c"
    by (simp add: assignDay_inert)
  then show ?case using e(2) by (simp add: cursorBefore_next)
qed

lemma cursor_rotation_stretch:
  assumes ts: "ts \<noteq> []" and v: "validDate start"
  shows "validDate d \<Longrightarrow> dayNumber start \<le> dayNumber d \<Longrightarrow>
     (\<forall>e. validDate e \<longrightarrow> dayNumber start \<le> dayNumber e \<longrightarrow> dayNumber e < dayNumber d \<longrightarrow>
        mc (formatDate e) = None) \<Longrightarrow>
     cursorBefore ts mc start d = Some (dayNumber d - dayNumber start)"
proof (induction "nat (dayNumber d - dayNumber start)" arbitrary: d)
  case 0
  then have "dayNumber d = dayNumber start" by simp
  with 0(2) v have "d = start" by (intro dayNumber_inj)
  then show ?case by (simp add: cursorBefore_start)
next
  case (Suc n)
  let ?e = "setDate d (getDate d - 1)"
  have e: "validDate ?e" "dayNumber d = dayNumber ?e + 1"
    by (simp_all add: setDate_valid dayNumber_setDate)
  have se: "dayNumber start \<le> dayNumber ?e" using Suc.hyps(2) e(2) by simp
  have "cursorBefore ts mc start ?e = Some (dayNumber ?e - dayNumber start)"
  proof (rule Suc.hyps(1))
    show "n = nat (dayNumber ?e - dayNumber start)" using Suc.hyps(2) e(2) by simp
    show "validDate ?e" by (rule e(1))
    show "dayNumber start \<le> dayNumber ?e" by (rule se)
    show "\<forall>x. validDate x \<longrightarrow> dayNumber start \<le> dayNumber x \<longrightarrow> dayNumber x < dayNumber ?e \<longrightarrow>
        mc (formatDate x) = None"
      using Suc.prems(3) e(2) by simp
  qed
  moreover have "mc (formatDate ?e) = None"
    using Suc.prems(3) e se by simp
  moreover obtain c0 a c' where "cursorBefore ts mc start ?e = Some c0" "0 \<le> c0"
    "assignDay ts (teacherIndexMap ts) (mc (formatDate ?e)) c0 = Inr (a, c')"
    "cursorAfter ts mc start ?e = Some c'"
    using day_semantics [OF ts v e(1) se order_refl, of mc] by force
  ultimately have "cursorAfter ts mc start ?e = Some (dayNumber ?e - dayNumber start + 1)"
    using assignDay_rotation [OF ts, of c0 None "teacherIndexMap ts"] by simp
  then show ?case using e(2) by (simp add: cursorBefore_next)
qed

section \<open>The generator's output\<close>

lemma generateSchedule_output:
  assumes "ts \<noteq> []"
  shows "generateSchedule ts sd mc cur =
     Inr (map (\<lambda>x. \<lparr>date = formatDate x,
                    teacherId =
                      (if dayNumber (lastDayOf cur) < dayNumber (startDateOf sd) \<or>
                          dayNumber x < dayNumber (startDateOf sd)
                       then None
                       else case assignedOn ts mc (startDateOf sd) (lastDayOf cur) x of
                              None \<Rightarrow> None | Some a \<Rightarrow> a)\<rparr>)
            (getDatesInMonth (getFullYear cur) (getMonth cur)))"
proof (cases "dayNumber (lastDayOf cur) < dayNumber (startDateOf sd)")
  case True
  then show ?thesis by (simp add: generateSchedule_def Let_def)
next
  case False
  obtain c S where w: "walk ts (teacherIndexMap ts) mc (lastDayOf cur) (startDateOf sd) 0 Map.empty
      = Inr (c, S)"
    using walk_total [OF assms, of 0] by blast
  then have "assignedOn ts mc (startDateOf sd) (lastDayOf cur) x = S (formatDate x)" for x
    by (simp add: assignedOn_def)
  with False w show ?thesis
    by (simp add: generateSchedule_def Let_def)
qed

lemma monthDates_facts:
  assumes "0 \<le> getMonth cur" "getMonth cur < 12"
    and "x \<in> set (getDatesInMonth (getFullYear cur) (getMonth cur))"
  shows "validDate x" and "dayNumber x \<le> dayNumber (lastDayOf cur)"
proof -
  let ?Y = "fullYear (getFullYear cur)" and ?m = "getMonth cur"
  from assms(3) obtain k where k: "1 \<le> k" "k \<le> DaysInMonth ?Y ?m"
    and x: "x = \<lparr>getFullYear = ?Y, getMonth = ?m, getDate = k\<rparr>"
    unfolding getDatesInMonth_days [OF assms(1,2)] by auto
  show vx: "validDate x" using k x assms(1,2) by (simp add: validDate_def)
  have l: "lastDayOf cur = \<lparr>getFullYear = ?Y, getMonth = ?m, getDate = DaysInMonth ?Y ?m\<rparr>"
    unfolding lastDayOf_def by (rule new_Date_last [OF assms(1,2)])
  show "dayNumber x \<le> dayNumber (lastDayOf cur)"
    using k unfolding l x by (simp add: dayNumber_def MakeDay_def)
qed

lemma startDateOf_valid: "validDate (startDateOf sd)"
  by (cases sd) (simp add: startDateOf_def new_Date_valid)

lemma new_Date_in_range:
  assumes "0 \<le> m" "m < 12" "1 \<le> d" "d \<le> DaysInMonth (fullYear y) m"
  shows "new_Date y m d = \<lparr>getFullYear = fullYear y, getMonth = m, getDate = d\<rparr>"
  using assms by (simp add: new_Date_def MakeDate_def normalise_id)

lemma day_result:
  assumes "ts \<noteq> []" "validDate start" "validDate d"
    and "dayNumber start \<le> dayNumber d" "dayNumber d \<le> dayNumber lastDay"
    and "cursorBefore ts mc start d = Some c"
    and "assignDay ts (teacherIndexMap ts) (mc (formatDate d)) c = Inr (a, c')"
  shows "assignedOn ts mc start lastDay d = Some a"
    and "cursorAfter ts mc start d = Some c'"
  using day_semantics [OF assms(1-5), of mc] assms(6,7) by auto

lemma output_entry:
  assumes "ts \<noteq> []" "0 \<le> getMonth cur" "getMonth cur < 12"
    and "d \<in> set (getDatesInMonth (getFullYear cur) (getMonth cur))"
    and "dayNumber (startDateOf sd) \<le> dayNumber d"
    and "assignedOn ts mc (startDateOf sd) (lastDayOf cur) d = Some a"
  shows "\<exists>shifts. generateSchedule ts sd mc cur = Inr shifts \<and>
     \<lparr>date = formatDate d, teacherId = a\<rparr> \<in> set shifts"
proof -
  have "dayNumber d \<le> dayNumber (lastDayOf cur)"
    using assms(2-4) by (rule monthDates_facts)
  with assms(5,6) have "\<lparr>date = formatDate d, teacherId = a\<rparr> =
      (\<lambda>x. \<lparr>date = formatDate x,
             teacherId =
               (if dayNumber (lastDayOf cur) < dayNumber (startDateOf sd) \<or>
                   dayNumber x < dayNumber (startDateOf sd)
                then None
                else case assignedOn ts mc (startDateOf sd) (lastDayOf cur) x of
                       None \<Rightarrow> None | Some a \<Rightarrow> a)\<rparr>) d"
    by simp
  with assms(4) show ?thesis
    unfolding generateSchedule_output [OF assms(1)] by (metis (no_types, lifting) image_eqI list.set_map sum.inject(2))
qed



text \<open>The walk depends on the override map only through what \<open>assignDay\<close> makes of it.\<close>

lemma walk_override_cong:
  assumes "\<And>k c. assignDay ts im (mc k) c = assignDay ts im (mc' k) c"
  shows "walk ts im mc lastDay ptr c S = walk ts im mc' lastDay ptr c S"
proof (induction ptr c S rule: walk_induct [where lastDay = lastDay and ts = ts and im = im and mc = mc])
  case (stop ptr c S)
  then show ?case by (simp add: walk_stop)
next
  case (step ptr c S a c')
  have s': "assignDay ts im (mc' (formatDate ptr)) c = Inr (a, c')"
    using step.hyps(2) assms by simp
  show ?case
    unfolding walk_step [where mc = mc and S = S, OF step.hyps(1,2)]
      walk_step [where mc = mc' and S = S, OF step.hyps(1) s']
    by (rule step.IH)
next
  case (error ptr c S e)
  have e': "assignDay ts im (mc' (formatDate ptr)) c = Inl e"
    using error(2) assms by simp
  show ?case
    unfolding walk_error [where mc = mc, OF error(1,2)] walk_error [where mc = mc', OF error(1) e']
    by (rule refl)
qed

text \<open>
  After a run of days whose overrides are inert, a day without override takes the teacher
  at the cursor with which the walk left the day before the run.
\<close>

lemma next_unoverridden:
  assumes ts: "ts \<noteq> []" and v: "validDate start" "validDate d"
    and sd: "dayNumber start \<le> dayNumber d"
    and after: "cursorAfter ts mc start d = Some c" "0 \<le> c"
    and d': "validDate d'" "dayNumber d < dayNumber d'" "dayNumber d' \<le> dayNumber lastDay"
    and free: "mc (formatDate d') = None"
    and inert: "\<forall>e. validDate e \<longrightarrow> dayNumber d < dayNumber e \<longrightarrow> dayNumber e < dayNumber d' \<longrightarrow>
        inertOverride ts (mc (formatDate e))"
  shows "assignedOn ts mc start lastDay d' = Some (Some (id' (ts ! (nat c mod length ts))))"
    and "cursorAfter ts mc start d' = Some (c + 1)"
proof -
  have cb: "cursorBefore ts mc start d' = Some c"
    using ts v sd after(1) d'(1,2) inert by (rule cursor_inert_stretch)
  have le: "dayNumber start \<le> dayNumber d'" using sd d'(2) by simp
  have day: "assignDay ts (teacherIndexMap ts) (mc (formatDate d')) c
      = Inr (Some (rotationTeacher ts c), c + 1)"
    using ts after(2) free by (intro assignDay_rotation) simp_all
  show "assignedOn ts mc start lastDay d' = Some (Some (id' (ts ! (nat c mod length ts))))"
    using day_result(1) [OF ts v(1) d'(1) le d'(3) cb day] by (simp add: rotationTeacher_def)
  show "cursorAfter ts mc start d' = Some (c + 1)"
    using day_result(2) [OF ts v(1) d'(1) le order_refl cb day] .
qed

lemma inert_day:
  assumes ts: "ts \<noteq> []" and v: "validDate start" "validDate d"
    and range: "dayNumber start \<le> dayNumber d" "dayNumber d \<le> dayNumber lastDay"
    and inert: "inertOverride ts (mc (formatDate d))"
  shows "assignedOn ts mc start lastDay d = Some None"
    and "\<exists>c. cursorBefore ts mc start d = Some c \<and> cursorAfter ts mc start d = Some c \<and> 0 \<le> c"
proof -
  from day_semantics [OF ts v range, of mc]
  obtain c a c' where c: "cursorBefore ts mc start d = Some c" "0 \<le> c"
    and day: "assignDay ts (teacherIndexMap ts) (mc (formatDate d)) c = Inr (a, c')"
    and res: "cursorAfter ts mc start d = Some c'" "assignedOn ts mc start lastDay d = Some a"
    by blast
  from day inert have "a = None" "c' = c" by (simp_all add: assignDay_inert)
  with c res show "assignedOn ts mc start lastDay d = Some None"
    and "\<exists>c. cursorBefore ts mc start d = Some c \<and> cursorAfter ts mc start d = Some c \<and> 0 \<le> c"
    by simp_all
qed

lemma generateSchedule_override_cong:
  assumes "\<And>k c. assignDay ts (teacherIndexMap ts) (mc k) c = assignDay ts (teacherIndexMap ts) (mc' k) c"
  shows "generateSchedule ts sd mc cur = generateSchedule ts sd mc' cur"
  unfolding generateSchedule_def Let_def
  by (simp only: walk_override_cong [where mc = mc and mc' = mc', OF assms])

text \<open>A day whose override names a teacher of the roster.\<close>

lemma pick_day:
  assumes ids: "distinct (map id' ts)" "i < length ts" "id' (ts ! i) = T"
    and T: "T \<noteq> []" "T \<noteq> ''__EMPTY__''"
    and v: "validDate start" "validDate d"
    and range: "dayNumber start \<le> dayNumber d" "dayNumber d \<le> dayNumber lastDay"
    and ov: "mc (formatDate d) = Some T"
  shows "assignedOn ts mc start lastDay d = Some (Some T)"
    and "cursorAfter ts mc start d = Some (int i + 1)"
proof -
  have ts: "ts \<noteq> []" using ids(2) by auto
  have im: "teacherIndexMap ts T = Some i"
    using teacherIndexMap_distinct [OF ids(1,2)] ids(3) by simp
  from day_semantics [OF ts v range, of mc]
  obtain c a c' where day: "assignDay ts (teacherIndexMap ts) (mc (formatDate d)) c = Inr (a, c')"
    and res: "cursorAfter ts mc start d = Some c'" "assignedOn ts mc start lastDay d = Some a"
    by blast
  from day ov have "a = Some T" "c' = int i + 1"
    using assignDay_pick [where im = "teacherIndexMap ts" and ts = ts and c = c, OF T im] by simp_all
  with res show "assignedOn ts mc start lastDay d = Some (Some T)"
    and "cursorAfter ts mc start d = Some (int i + 1)"
    by simp_all
qed

text \<open>A day without a truthy override takes its turn in the rotation.\<close>

lemma rotation_day:
  assumes ts: "ts \<noteq> []" and v: "validDate start" "validDate d"
    and range: "dayNumber start \<le> dayNumber d" "dayNumber d \<le> dayNumber lastDay"
    and ov: "mc (formatDate d) = None \<or> mc (formatDate d) = Some []"
  shows "\<exists>c. cursorBefore ts mc start d = Some c \<and> 0 \<le> c \<and>
     assignedOn ts mc start lastDay d = Some (Some (id' (ts ! (nat c mod length ts)))) \<and>
     cursorAfter ts mc start d = Some (c + 1)"
proof -
  from day_semantics [OF ts v range, of mc]
  obtain c a c' where c: "cursorBefore ts mc start d = Some c" "0 \<le> c"
    and day: "assignDay ts (teacherIndexMap ts) (mc (formatDate d)) c = Inr (a, c')"
    and res: "cursorAfter ts mc start d = Some c'" "assignedOn ts mc start lastDay d = Some a"
    by blast
  from day have "a = Some (rotationTeacher ts c)" "c' = c + 1"
    using assignDay_rotation [where im = "teacherIndexMap ts", OF ts c(2) ov] by simp_all
  with c res show ?thesis by (simp add: rotationTeacher_def)
qed

section \<open>The walk with the time of day\<close>

lemma localTime_ge: "t \<le> localTime tz dayNo t"
  by (simp add: localTime_def Let_def)

lemma localTime_zero_le: "0 \<le> t \<Longrightarrow> localTime tz dayNo 0 \<le> localTime tz dayNo t"
  by (auto simp: localTime_def Let_def)

lemma timeInDay_setDate_tz:
  "timeInDay (setDate_tz tz t n) = localTime tz (dayNumber (setDate (calendarDay t) n)) (timeInDay t)"
  by (simp add: setDate_tz_def Let_def)

lemma new_DateTime_parts:
  "calendarDay (new_DateTime tz y m d) = new_Date y m d"
  "timeInDay (new_DateTime tz y m d) = localTime tz (dayNumber (new_Date y m d)) 0"
  by (simp_all add: new_DateTime_def Let_def)

lemma walk_tz_stop:
  "\<not> le_DateTime ptr lastDay \<Longrightarrow> walk_tz tz ts im mc lastDay ptr c S = Inr (c, S)"
  by (subst walk_tz.simps) simp

lemma walk_tz_step:
  assumes "le_DateTime ptr lastDay"
    and "assignDay ts im (mc (formatDate (calendarDay ptr))) c = Inr (a, c')"
  shows "walk_tz tz ts im mc lastDay ptr c S =
     walk_tz tz ts im mc lastDay (setDate_tz tz ptr (getDate (calendarDay ptr) + 1)) c'
       (S(formatDate (calendarDay ptr) \<mapsto> a))"
  using assms by (subst walk_tz.simps) (simp add: Let_def)

lemma walk_tz_error:
  assumes "le_DateTime ptr lastDay"
    and "assignDay ts im (mc (formatDate (calendarDay ptr))) c = Inl e"
  shows "walk_tz tz ts im mc lastDay ptr c S = Inl e"
  using assms by (subst walk_tz.simps) (simp add: Let_def)

text \<open>
  The walk with the time of day is the walk over calendar days to the last day it visits.
\<close>

lemma walk_tz_walk:
  "dayNumber (calendarDay ptr) \<le> dayNumber (calendarDay lastDay) \<Longrightarrow>
     walk_tz tz ts im mc lastDay ptr c S =
       walk ts im mc (walkedLastDay tz ptr lastDay) (calendarDay ptr) c S"
proof (induction "nat (dayNumber (calendarDay lastDay) - dayNumber (calendarDay ptr))"
    arbitrary: ptr c S)
  case 0
  let ?L = "calendarDay lastDay" and ?p = "calendarDay ptr"
  from 0 have eq: "dayNumber ?p = dayNumber ?L" by simp
  have arr: "arrivalTime tz (timeInDay ptr) (dayNumber ?p) (dayNumber ?L) = timeInDay ptr"
    using eq by (subst arrivalTime.simps) simp
  let ?n = "setDate_tz tz ptr (getDate ?p + 1)"
  show ?case
  proof (cases "timeInDay ptr \<le> timeInDay lastDay")
    case True
    then have le: "le_DateTime ptr lastDay"
      using eq by (simp add: le_DateTime_def less_DateTime_def)
    have w: "walkedLastDay tz ptr lastDay = ?L"
      using True arr by (simp add: walkedLastDay_def)
    have le': "dayNumber ?p \<le> dayNumber ?L" using eq by simp
    show ?thesis
    proof (cases "assignDay ts im (mc (formatDate ?p)) c")
      case (Inl e)
      show ?thesis
        unfolding w walk_tz_error [where mc = mc, OF le Inl] walk_error [where mc = mc, OF le' Inl]
        by (rule refl)
    next
      case (Inr r)
      obtain a c' where r: "r = (a, c')" by (cases r)
      note day = Inr [unfolded r]
      have after: "dayNumber ?L < dayNumber (setDate ?p (getDate ?p + 1))"
        using eq by (simp add: dayNumber_setDate_succ)
      then have "\<not> le_DateTime ?n lastDay"
        by (simp add: le_DateTime_def less_DateTime_def)
      then have "walk_tz tz ts im mc lastDay ?n c' (S(formatDate ?p \<mapsto> a))
          = Inr (c', S(formatDate ?p \<mapsto> a))"
        by (rule walk_tz_stop)
      moreover have "walk ts im mc ?L (setDate ?p (getDate ?p + 1)) c' (S(formatDate ?p \<mapsto> a))
          = Inr (c', S(formatDate ?p \<mapsto> a))"
        using after by (rule walk_stop)
      ultimately show ?thesis
        unfolding w walk_tz_step [where mc = mc and S = S, OF le day]
          walk_step [where mc = mc and S = S, OF le' day]
        by simp
    qed
  next
    case False
    then have nle: "\<not> le_DateTime ptr lastDay"
      using eq by (simp add: le_DateTime_def less_DateTime_def)
    have w: "walkedLastDay tz ptr lastDay = setDate ?L (getDate ?L - 1)"
      using False arr by (simp add: walkedLastDay_def)
    have "dayNumber (setDate ?L (getDate ?L - 1)) < dayNumber ?p"
      using eq by (simp add: dayNumber_setDate)
    then show ?thesis
      unfolding w walk_tz_stop [OF nle] by (simp add: walk_stop)
  qed
next
  case (Suc n)
  let ?L = "calendarDay lastDay" and ?p = "calendarDay ptr"
  let ?n = "setDate_tz tz ptr (getDate ?p + 1)"
  from Suc.hyps(2) have lt: "dayNumber ?p < dayNumber ?L" by simp
  then have le: "le_DateTime ptr lastDay"
    by (simp add: le_DateTime_def less_DateTime_def)
  have dn: "dayNumber (calendarDay ?n) = dayNumber ?p + 1"
    by (simp add: dayNumber_setDate_succ)
  have tn: "timeInDay ?n = localTime tz (dayNumber ?p + 1) (timeInDay ptr)"
    by (simp add: timeInDay_setDate_tz dayNumber_setDate_succ)
  have "arrivalTime tz (timeInDay ptr) (dayNumber ?p) (dayNumber ?L)
      = arrivalTime tz (timeInDay ?n) (dayNumber (calendarDay ?n)) (dayNumber ?L)"
    using lt unfolding dn tn by (subst arrivalTime.simps) simp
  then have w: "walkedLastDay tz ptr lastDay = walkedLastDay tz ?n lastDay"
    by (simp add: walkedLastDay_def)
  have le': "dayNumber ?p \<le> dayNumber (walkedLastDay tz ptr lastDay)"
    using lt by (simp add: walkedLastDay_def dayNumber_setDate)
  show ?case
  proof (cases "assignDay ts im (mc (formatDate ?p)) c")
    case (Inl e)
    show ?thesis
      unfolding walk_tz_error [where mc = mc, OF le Inl] walk_error [where mc = mc, OF le' Inl]
      by (rule refl)
  next
    case (Inr r)
    obtain a c' where r: "r = (a, c')" by (cases r)
    note day = Inr [unfolded r]
    have "walk_tz tz ts im mc lastDay ptr c S =
        walk_tz tz ts im mc lastDay ?n c' (S(formatDate ?p \<mapsto> a))"
      using le day by (rule walk_tz_step)
    also have "\<dots> =
        walk ts im mc (walkedLastDay tz ?n lastDay) (calendarDay ?n) c' (S(formatDate ?p \<mapsto> a))"
    proof (rule Suc.hyps(1))
      show "n = nat (dayNumber ?L - dayNumber (calendarDay ?n))"
        using Suc.hyps(2) dn by simp
      show "dayNumber (calendarDay ?n) \<le> dayNumber ?L" using lt dn by simp
    qed
    also have "\<dots> = walk ts im mc (walkedLastDay tz ptr lastDay)
        (setDate ?p (getDate ?p + 1)) c' (S(formatDate ?p \<mapsto> a))"
      by (simp add: w)
    also have "\<dots> = walk ts im mc (walkedLastDay tz ptr lastDay) ?p c S"
      using le' day by (rule walk_step [where mc = mc, symmetric])
    finally show ?thesis .
  qed
qed

text \<open>The dates of the month with the time of day: their calendar days and their times.\<close>

lemma getDatesInMonth_tz_loop_days:
  "map calendarDay (getDatesInMonth_tz_loop tz m dt acc) =
     getDatesInMonth_loop m (calendarDay dt) (map calendarDay acc)"
proof (induction tz m dt acc rule: getDatesInMonth_tz_loop.induct)
  case (1 tz month dt dates)
  show ?case
  proof (cases "getMonth (calendarDay dt) = month")
    case True
    have "map calendarDay (getDatesInMonth_tz_loop tz month dt dates) =
        map calendarDay (getDatesInMonth_tz_loop tz month
          (setDate_tz tz dt (getDate (calendarDay dt) + 1)) (dates @ [dt]))"
      using True by (subst getDatesInMonth_tz_loop.simps) simp
    also have "\<dots> = getDatesInMonth_loop month
        (setDate (calendarDay dt) (getDate (calendarDay dt) + 1)) (map calendarDay dates @ [calendarDay dt])"
      using 1 [OF True] by simp
    also have "\<dots> = getDatesInMonth_loop month (calendarDay dt) (map calendarDay dates)"
      using True by (subst (2) getDatesInMonth_loop.simps) simp
    finally show ?thesis .
  next
    case False
    then show ?thesis
      by (subst getDatesInMonth_tz_loop.simps, subst getDatesInMonth_loop.simps) simp
  qed
qed

lemma getDatesInMonth_tz_days:
  "map calendarDay (getDatesInMonth_tz tz y m) = getDatesInMonth y m"
  by (simp add: getDatesInMonth_tz_def getDatesInMonth_def getDatesInMonth_tz_loop_days
      new_DateTime_parts)

lemma getDatesInMonth_tz_loop_times:
  "(\<forall>x \<in> set acc. localTime tz (dayNumber (calendarDay x)) 0 \<le> timeInDay x) \<Longrightarrow>
   localTime tz (dayNumber (calendarDay dt)) 0 \<le> timeInDay dt \<Longrightarrow>
   \<forall>x \<in> set (getDatesInMonth_tz_loop tz m dt acc).
      localTime tz (dayNumber (calendarDay x)) 0 \<le> timeInDay x"
proof (induction tz m dt acc rule: getDatesInMonth_tz_loop.induct)
  case (1 tz month dt dates)
  show ?case
  proof (cases "getMonth (calendarDay dt) = month")
    case True
    let ?n = "setDate_tz tz dt (getDate (calendarDay dt) + 1)"
    have "0 \<le> localTime tz (dayNumber (calendarDay dt)) 0" by (rule localTime_ge)
    with 1(3) have "0 \<le> timeInDay dt" by simp
    then have n: "localTime tz (dayNumber (calendarDay ?n)) 0 \<le> timeInDay ?n"
      by (simp add: timeInDay_setDate_tz localTime_zero_le)
    have "\<forall>x \<in> set (getDatesInMonth_tz_loop tz month ?n (dates @ [dt])).
        localTime tz (dayNumber (calendarDay x)) 0 \<le> timeInDay x"
      using 1(2,3) n by (intro 1(1) [OF True]) auto
    then show ?thesis
      using True by (subst getDatesInMonth_tz_loop.simps) simp
  next
    case False
    then show ?thesis
      using 1(2) by (subst getDatesInMonth_tz_loop.simps) simp
  qed
qed

lemma getDatesInMonth_tz_times:
  "x \<in> set (getDatesInMonth_tz tz y m) \<Longrightarrow>
     localTime tz (dayNumber (calendarDay x)) 0 \<le> timeInDay x"
  using getDatesInMonth_tz_loop_times [of "[]" tz "new_DateTime tz y m 1" m]
  by (simp add: getDatesInMonth_tz_def new_DateTime_parts)

lemma startDateOf_tz_parts:
  "calendarDay (startDateOf_tz tz sd) = startDateOf sd"
  "timeInDay (startDateOf_tz tz sd) = localTime tz (dayNumber (startDateOf sd)) 0"
  by (cases sd; simp add: startDateOf_tz_def startDateOf_def new_DateTime_parts)+

lemma lastDayOf_tz_parts:
  "calendarDay (lastDayOf_tz tz cur) = lastDayOf cur"
  "timeInDay (lastDayOf_tz tz cur) = localTime tz (dayNumber (lastDayOf cur)) 0"
  by (simp_all add: lastDayOf_tz_def lastDayOf_def new_DateTime_parts)

text \<open>
  The comparisons of the generator, made on time values, come to comparisons of day numbers
  but for the test that ends the walk.
\<close>

lemma start_after_last:
  "less_DateTime (lastDayOf_tz tz cur) (startDateOf_tz tz sd) \<longleftrightarrow>
     dayNumber (lastDayOf cur) < dayNumber (startDateOf sd)"
  by (auto simp: less_DateTime_def startDateOf_tz_parts lastDayOf_tz_parts)

lemma monthDate_before_start:
  assumes "x \<in> set (getDatesInMonth_tz tz y m)"
  shows "less_DateTime x (startDateOf_tz tz sd) \<longleftrightarrow>
     dayNumber (calendarDay x) < dayNumber (startDateOf sd)"
  using getDatesInMonth_tz_times [OF assms]
  by (auto simp: less_DateTime_def startDateOf_tz_parts)

text \<open>
  The output of the generator with the time of day, for a roster that is not empty: that of
  the walk over calendar days to the last day visited.
\<close>

lemma generateSchedule_tz_output:
  assumes "ts \<noteq> []"
  shows "generateSchedule_tz tz ts sd mc cur =
     Inr (map (\<lambda>x. \<lparr>date = formatDate x,
                    teacherId =
                      (if dayNumber (lastDayOf cur) < dayNumber (startDateOf sd) \<or>
                          dayNumber x < dayNumber (startDateOf sd)
                       then None
                       else case assignedOn ts mc (startDateOf sd)
                                   (walkedLastDay tz (startDateOf_tz tz sd) (lastDayOf_tz tz cur)) x of
                              None \<Rightarrow> None | Some a \<Rightarrow> a)\<rparr>)
            (getDatesInMonth (getFullYear cur) (getMonth cur)))"
proof -
  let ?dates = "getDatesInMonth_tz tz (getFullYear cur) (getMonth cur)"
  let ?W = "walkedLastDay tz (startDateOf_tz tz sd) (lastDayOf_tz tz cur)"
  have days: "getDatesInMonth (getFullYear cur) (getMonth cur) = map calendarDay ?dates"
    by (simp add: getDatesInMonth_tz_days)
  show ?thesis
  proof (cases "dayNumber (lastDayOf cur) < dayNumber (startDateOf sd)")
    case True
    then show ?thesis
      unfolding days by (simp add: generateSchedule_tz_def Let_def start_after_last comp_def)
  next
    case False
    then have le: "dayNumber (calendarDay (startDateOf_tz tz sd))
        \<le> dayNumber (calendarDay (lastDayOf_tz tz cur))"
      by (simp add: startDateOf_tz_parts lastDayOf_tz_parts)
    obtain c S where w: "walk ts (teacherIndexMap ts) mc ?W (startDateOf sd) 0 Map.empty = Inr (c, S)"
      using walk_total [OF assms, of 0] by blast
    then have wt: "walk_tz tz ts (teacherIndexMap ts) mc (lastDayOf_tz tz cur) (startDateOf_tz tz sd)
        0 Map.empty = Inr (c, S)"
      using walk_tz_walk [OF le, of tz ts "teacherIndexMap ts" mc 0 Map.empty]
      by (simp add: startDateOf_tz_parts)
    have a: "assignedOn ts mc (startDateOf sd) ?W x = S (formatDate x)" for x
      using w by (simp add: assignedOn_def)
    have "generateSchedule_tz tz ts sd mc cur =
        Inr (map (\<lambda>d.
               if less_DateTime d (startDateOf_tz tz sd)
               then \<lparr>date = formatDate (calendarDay d), teacherId = None\<rparr>
               else \<lparr>date = formatDate (calendarDay d),
                     teacherId = (case S (formatDate (calendarDay d)) of
                                    None \<Rightarrow> None | Some assigned \<Rightarrow> assigned)\<rparr>) ?dates)"
      using False wt by (simp add: generateSchedule_tz_def Let_def start_after_last)
    also have "\<dots> = Inr (map (\<lambda>d.
               if dayNumber (calendarDay d) < dayNumber (startDateOf sd)
               then \<lparr>date = formatDate (calendarDay d), teacherId = None\<rparr>
               else \<lparr>date = formatDate (calendarDay d),
                     teacherId = (case S (formatDate (calendarDay d)) of
                                    None \<Rightarrow> None | Some assigned \<Rightarrow> assigned)\<rparr>) ?dates)"
      by (simp add: monthDate_before_start cong: map_cong)
    finally show ?thesis
      unfolding days using False by (simp add: a comp_def cong: if_cong)
  qed
qed

text \<open>The walk leaves the keys of the days after its last day alone.\<close>

lemma walk_beyond:
  assumes "validDate d" "dayNumber lastDay < dayNumber d"
  shows "validDate ptr \<Longrightarrow>
     walk ts im mc lastDay ptr c S = Inr (c', S') \<Longrightarrow> S' (formatDate d) = S (formatDate d)"
proof (induction ptr c S rule: walk_induct [where lastDay = lastDay and ts = ts and im = im and mc = mc])
  case (stop ptr c S)
  then show ?case by (simp add: walk_stop)
next
  case (step ptr c S a c1)
  have "ptr \<noteq> d" using step.hyps(1) assms(2) by auto
  then have ne: "formatDate ptr \<noteq> formatDate d"
    using formatDate_inj [OF step.prems(1) assms(1)] by blast
  have "S' (formatDate d) = (S(formatDate ptr \<mapsto> a)) (formatDate d)"
  proof (rule step.IH)
    show "validDate (setDate ptr (getDate ptr + 1))" by (rule setDate_valid)
    show "walk ts im mc lastDay (setDate ptr (getDate ptr + 1)) c1 (S(formatDate ptr \<mapsto> a))
        = Inr (c', S')"
      using step.prems(2) unfolding walk_step [where mc = mc and S = S, OF step.hyps(1,2)] .
  qed
  with ne show ?case by simp
next
  case (error ptr c S e)
  then show ?case by (simp add: walk_error)
qed

lemma assignedOn_beyond:
  assumes "validDate start" "validDate d" "dayNumber lastDay < dayNumber d"
  shows "assignedOn ts mc start lastDay d = None"
proof (cases "walk ts (teacherIndexMap ts) mc lastDay start 0 Map.empty")
  case (Inl e)
  then show ?thesis by (simp add: assignedOn_def)
next
  case (Inr r)
  obtain c S where r: "r = (c, S)" by (cases r)
  have "S (formatDate d) = Map.empty (formatDate d)"
    using assms(2,3,1) Inr [unfolded r] by (rule walk_beyond)
  with Inr r show ?thesis by (simp add: assignedOn_def)
qed

text \<open>What a day is assigned does not depend on how far beyond it the walk goes.\<close>

lemma assignedOn_lastDay:
  assumes "ts \<noteq> []" "validDate start" "validDate d"
    and "dayNumber start \<le> dayNumber d" "dayNumber d \<le> dayNumber l1" "dayNumber d \<le> dayNumber l2"
  shows "assignedOn ts mc start l1 d = assignedOn ts mc start l2 d"
proof -
  from day_semantics [OF assms(1-5), of mc]
  obtain c a c' where 1: "cursorBefore ts mc start d = Some c"
    "assignDay ts (teacherIndexMap ts) (mc (formatDate d)) c = Inr (a, c')"
    "assignedOn ts mc start l1 d = Some a"
    by blast
  from day_semantics [OF assms(1-4,6), of mc]
  obtain c2 a2 c2' where 2: "cursorBefore ts mc start d = Some c2"
    "assignDay ts (teacherIndexMap ts) (mc (formatDate d)) c2 = Inr (a2, c2')"
    "assignedOn ts mc start l2 d = Some a2"
    by blast
  from 1 2 show ?thesis by simp
qed

lemma walkedLastDay_cases:
  "walkedLastDay tz start lastDay = calendarDay lastDay \<or>
   walkedLastDay tz start lastDay = setDate (calendarDay lastDay) (getDate (calendarDay lastDay) - 1)"
  by (simp add: walkedLastDay_def)

lemma dayNumber_dayBefore: "dayNumber (setDate d (getDate d - 1)) = dayNumber d - 1"
  by (simp add: dayNumber_setDate)

text \<open>
  The generator with the time of day against the generator over calendar days: the two
  outputs list the same dates; they agree on every day before the last day of the visible
  month; on the last day the generator with the time of day either agrees or assigns
  nobody, and it agrees when the walk visits that day.
\<close>

lemma generateSchedule_tz_refines:
  assumes "ts \<noteq> []" "0 \<le> getMonth cur" "getMonth cur < 12"
  shows "\<exists>e e'. generateSchedule ts sd mc cur =
            Inr (map e (getDatesInMonth (getFullYear cur) (getMonth cur))) \<and>
          generateSchedule_tz tz ts sd mc cur =
            Inr (map e' (getDatesInMonth (getFullYear cur) (getMonth cur))) \<and>
          (\<forall>x \<in> set (getDatesInMonth (getFullYear cur) (getMonth cur)).
             date (e x) = formatDate x \<and> date (e' x) = formatDate x \<and>
             (dayNumber x < dayNumber (lastDayOf cur) \<longrightarrow> e' x = e x) \<and>
             (walkedLastDay tz (startDateOf_tz tz sd) (lastDayOf_tz tz cur) = lastDayOf cur \<longrightarrow>
                e' x = e x) \<and>
             (e' x = e x \<or> teacherId (e' x) = None))"
proof -
  let ?s = "startDateOf sd" and ?L = "lastDayOf cur"
  let ?W = "walkedLastDay tz (startDateOf_tz tz sd) (lastDayOf_tz tz cur)"
  define entry where "entry l x =
      \<lparr>date = formatDate x,
        teacherId = (if dayNumber ?L < dayNumber ?s \<or> dayNumber x < dayNumber ?s then None
                     else case assignedOn ts mc ?s l x of None \<Rightarrow> None | Some a \<Rightarrow> a)\<rparr>"
    for l x
  have W: "?W = ?L \<or> ?W = setDate ?L (getDate ?L - 1)"
    using walkedLastDay_cases [of tz "startDateOf_tz tz sd" "lastDayOf_tz tz cur"]
    by (simp add: lastDayOf_tz_parts)
  have dates: "date (entry l x) = formatDate x" for l x
    by (simp add: entry_def)
  have before: "entry ?W x = entry ?L x"
    if x: "x \<in> set (getDatesInMonth (getFullYear cur) (getMonth cur))"
      and lt: "dayNumber x < dayNumber ?L" for x
  proof (cases "dayNumber ?L < dayNumber ?s \<or> dayNumber x < dayNumber ?s")
    case True
    then show ?thesis by (simp add: entry_def)
  next
    case False
    have vx: "validDate x" using assms(2,3) x by (rule monthDates_facts)
    from False have sx: "dayNumber ?s \<le> dayNumber x" by simp
    have xw: "dayNumber x \<le> dayNumber ?W"
      using W lt by (auto simp: dayNumber_dayBefore)
    have xl: "dayNumber x \<le> dayNumber ?L" using lt by simp
    have "assignedOn ts mc ?s ?W x = assignedOn ts mc ?s ?L x"
      using assms(1) startDateOf_valid vx sx xw xl by (rule assignedOn_lastDay)
    then show ?thesis by (simp add: entry_def)
  qed
  have last: "entry ?W x = entry ?L x \<or> teacherId (entry ?W x) = None"
    if x: "x \<in> set (getDatesInMonth (getFullYear cur) (getMonth cur))" for x
  proof (cases "dayNumber x < dayNumber ?L")
    case True
    with x show ?thesis using before by blast
  next
    case False
    have vx: "validDate x" and xl: "dayNumber x \<le> dayNumber ?L"
      using assms(2,3) x by (rule monthDates_facts)+
    from False xl have eq: "dayNumber x = dayNumber ?L" by simp
    from W show ?thesis
    proof
      assume "?W = ?L"
      then show ?thesis by simp
    next
      assume w: "?W = setDate ?L (getDate ?L - 1)"
      have "dayNumber ?W < dayNumber x"
        unfolding w using eq by (simp add: dayNumber_dayBefore)
      with startDateOf_valid vx have "assignedOn ts mc ?s ?W x = None"
        by (rule assignedOn_beyond)
      then have "teacherId (entry ?W x) = None" by (simp add: entry_def)
      then show ?thesis ..
    qed
  qed
  have A: "generateSchedule ts sd mc cur =
      Inr (map (entry ?L) (getDatesInMonth (getFullYear cur) (getMonth cur)))"
    unfolding entry_def [abs_def] by (rule generateSchedule_output [OF assms(1)])
  have B: "generateSchedule_tz tz ts sd mc cur =
      Inr (map (entry ?W) (getDatesInMonth (getFullYear cur) (getMonth cur)))"
    unfolding entry_def [abs_def] by (rule generateSchedule_tz_output [OF assms(1)])
  have C: "\<forall>x \<in> set (getDatesInMonth (getFullYear cur) (getMonth cur)).
      date (entry ?L x) = formatDate x \<and> date (entry ?W x) = formatDate x \<and>
      (dayNumber x < dayNumber ?L \<longrightarrow> entry ?W x = entry ?L x) \<and>
      (?W = ?L \<longrightarrow> entry ?W x = entry ?L x) \<and>
      (entry ?W x = entry ?L x \<or> teacherId (entry ?W x) = None)"
  proof (intro ballI conjI impI)
    fix x
    assume x: "x \<in> set (getDatesInMonth (getFullYear cur) (getMonth cur))"
    show "date (entry ?L x) = formatDate x" "date (entry ?W x) = formatDate x"
      by (rule dates)+
    show "entry ?W x = entry ?L x \<or> teacherId (entry ?W x) = None"
      using x by (rule last)
    show "entry ?W x = entry ?L x" if "dayNumber x < dayNumber ?L"
      using x that by (rule before)
    show "entry ?W x = entry ?L x" if "?W = ?L"
      using that by simp
  qed
  show ?thesis
    by (rule exI [where x = "entry ?L"], rule exI [where x = "entry ?W"], intro conjI A B C)
qed

text \<open>The time of day at which the pointer arrives.\<close>

lemma arrivalTime_steady:
  "(\<forall>D. dayNo < D \<and> D \<le> target \<longrightarrow> localTime tz D t = t) \<Longrightarrow>
     arrivalTime tz t dayNo target = t"
proof (induction "nat (target - dayNo)" arbitrary: dayNo)
  case 0
  then show ?case by (subst arrivalTime.simps) simp
next
  case (Suc n)
  then have lt: "dayNo < target" by simp
  have "arrivalTime tz t (dayNo + 1) target = t"
    using Suc.hyps(2) Suc.prems by (intro Suc.hyps(1)) auto
  moreover have "localTime tz (dayNo + 1) t = t"
    using Suc.prems lt by simp
  ultimately show ?case using lt by (subst arrivalTime.simps) simp
qed

lemma arrivalTime_split:
  "dayNo \<le> mid \<Longrightarrow> mid \<le> target \<Longrightarrow>
     arrivalTime tz t dayNo target = arrivalTime tz (arrivalTime tz t dayNo mid) mid target"
proof (induction "nat (mid - dayNo)" arbitrary: dayNo t)
  case 0
  then have "dayNo = mid" by simp
  then show ?case by (subst (2) arrivalTime.simps) simp
next
  case (Suc n)
  then have lt: "dayNo < mid" by simp
  have "arrivalTime tz (localTime tz (dayNo + 1) t) (dayNo + 1) target =
      arrivalTime tz (arrivalTime tz (localTime tz (dayNo + 1) t) (dayNo + 1) mid) mid target"
    using Suc.hyps(2) Suc.prems by (intro Suc.hyps(1)) simp_all
  moreover have "arrivalTime tz t dayNo target =
      arrivalTime tz (localTime tz (dayNo + 1) t) (dayNo + 1) target"
    using lt Suc.prems by (subst arrivalTime.simps) simp
  moreover have "arrivalTime tz t dayNo mid =
      arrivalTime tz (localTime tz (dayNo + 1) t) (dayNo + 1) mid"
    using lt by (subst arrivalTime.simps) simp
  ultimately show ?case by simp
qed

text \<open>
  With no overrides and the walk starting on the first day of a month, day \<open>k\<close> of that
  month takes the teacher at position \<open>(k - 1) mod n\<close>, as far as the walk goes.
\<close>

lemma rotation_entry:
  assumes "ts \<noteq> []" "0 \<le> m" "m < 12" "1 \<le> k" "k \<le> DaysInMonth Y m"
    and "dayNumber \<lparr>getFullYear = Y, getMonth = m, getDate = k\<rparr> \<le> dayNumber lastDay"
  shows "assignedOn ts Map.empty \<lparr>getFullYear = Y, getMonth = m, getDate = 1\<rparr> lastDay
           \<lparr>getFullYear = Y, getMonth = m, getDate = k\<rparr>
         = Some (Some (id' (ts ! (nat (k - 1) mod length ts))))"
proof -
  let ?start = "\<lparr>getFullYear = Y, getMonth = m, getDate = 1\<rparr>"
  let ?day = "\<lambda>k. \<lparr>getFullYear = Y, getMonth = m, getDate = k\<rparr>"
  have vs: "validDate ?start"
    using assms(2,3) DaysInMonth_pos by (simp add: validDate_def)
  have vk: "validDate (?day k)" using assms(2-5) by (simp add: validDate_def)
  have dn: "dayNumber (?day j) = DayFromYear Y + DaysBeforeMonth Y m - 1 + j" for j
    using assms(2,3) by (simp add: dayNumber_def MakeDay_in_range)
  have le: "dayNumber ?start \<le> dayNumber (?day k)" using assms(4) by (simp add: dn)
  have "cursorBefore ts Map.empty ?start (?day k) = Some (dayNumber (?day k) - dayNumber ?start)"
    by (rule cursor_rotation_stretch [OF assms(1) vs vk le]) simp
  then have cb: "cursorBefore ts Map.empty ?start (?day k) = Some (k - 1)"
    by (simp add: dn)
  have "assignDay ts (teacherIndexMap ts) (Map.empty (formatDate (?day k))) (k - 1)
      = Inr (Some (rotationTeacher ts (k - 1)), k - 1 + 1)"
    using assms(1,4) by (intro assignDay_rotation) simp_all
  with assms(1) vs vk le assms(6) cb
  have "assignedOn ts Map.empty ?start lastDay (?day k) = Some (Some (rotationTeacher ts (k - 1)))"
    by (rule day_result(1) [where mc = Map.empty])
  then show ?thesis by (simp add: rotationTeacher_def)
qed

text \<open>
  The output for a roster that is not empty, no overrides and the start date on the first
  day of the visible month: every day of the month but the last takes its turn in the
  rotation, and the last day does so exactly when the walk visits it.
\<close>

lemma regenerateSchedule_tz_rotation:
  assumes "ts \<noteq> []" "0 \<le> getMonth cur" "getMonth cur < 12"
    and "startDateOf sd = new_Date (getFullYear cur) (getMonth cur) 1"
  shows "regenerateSchedule_tz tz ts sd Map.empty cur =
     Inr (map (\<lambda>k. \<lparr>date = formatDate \<lparr>getFullYear = fullYear (getFullYear cur),
                                       getMonth = getMonth cur, getDate = k\<rparr>,
                      teacherId =
                        (if k < DaysInMonth (fullYear (getFullYear cur)) (getMonth cur) \<or>
                            walkedLastDay tz (startDateOf_tz tz sd) (lastDayOf_tz tz cur) = lastDayOf cur
                         then Some (id' (ts ! (nat (k - 1) mod length ts)))
                         else None)\<rparr>)
            [1..DaysInMonth (fullYear (getFullYear cur)) (getMonth cur)])"
proof -
  let ?Y = "fullYear (getFullYear cur)" and ?m = "getMonth cur"
  let ?N = "DaysInMonth ?Y ?m"
  let ?start = "\<lparr>getFullYear = ?Y, getMonth = ?m, getDate = 1\<rparr>"
  let ?day = "\<lambda>k. \<lparr>getFullYear = ?Y, getMonth = ?m, getDate = k\<rparr>"
  let ?W = "walkedLastDay tz (startDateOf_tz tz sd) (lastDayOf_tz tz cur)"
  have start: "startDateOf sd = ?start"
    unfolding assms(4) by (rule new_Date_first [OF assms(2,3)])
  have l: "lastDayOf cur = ?day ?N"
    unfolding lastDayOf_def by (rule new_Date_last [OF assms(2,3)])
  have dn: "dayNumber (?day k) = DayFromYear ?Y + DaysBeforeMonth ?Y ?m - 1 + k" for k
    using assms(2,3) by (simp add: dayNumber_def MakeDay_in_range)
  have W: "?W = ?day ?N \<or> ?W = setDate (?day ?N) (getDate (?day ?N) - 1)"
    using walkedLastDay_cases [of tz "startDateOf_tz tz sd" "lastDayOf_tz tz cur"]
    by (simp add: lastDayOf_tz_parts l)
  have vs: "validDate ?start"
    using assms(2,3) DaysInMonth_pos by (simp add: validDate_def)
  have entry: "assignedOn ts Map.empty ?start ?W (?day k) =
      (if k < ?N \<or> ?W = ?day ?N then Some (Some (id' (ts ! (nat (k - 1) mod length ts)))) else None)"
    if k: "1 \<le> k" "k \<le> ?N" for k
  proof (cases "k < ?N \<or> ?W = ?day ?N")
    case True
    then have "dayNumber (?day k) \<le> dayNumber ?W"
      using W k by (auto simp: dayNumber_setDate dn)
    with assms(1-3) k
    have "assignedOn ts Map.empty ?start ?W (?day k) =
        Some (Some (id' (ts ! (nat (k - 1) mod length ts))))"
      by (rule rotation_entry)
    with True show ?thesis by simp
  next
    case False
    with k have kN: "k = ?N" by simp
    from False W have w: "?W = setDate (?day ?N) (getDate (?day ?N) - 1)" by simp
    have vk: "validDate (?day k)" using assms(2,3) k by (simp add: validDate_def)
    have "dayNumber ?W < dayNumber (?day k)"
      unfolding w kN by (simp add: dayNumber_setDate dn)
    with vs vk have "assignedOn ts Map.empty ?start ?W (?day k) = None"
      by (rule assignedOn_beyond)
    with False show ?thesis by simp
  qed
  have "regenerateSchedule_tz tz ts sd Map.empty cur = generateSchedule_tz tz ts sd Map.empty cur"
    using assms(1) by (simp add: regenerateSchedule_tz_def)
  also have "\<dots> = Inr (map (\<lambda>k. \<lparr>date = formatDate (?day k),
                      teacherId = (if k < ?N \<or> ?W = lastDayOf cur
                                   then Some (id' (ts ! (nat (k - 1) mod length ts)))
                                   else None)\<rparr>)
            [1..?N])"
    unfolding generateSchedule_tz_output [OF assms(1)] getDatesInMonth_days [OF assms(2,3)] start
    using entry by (simp add: comp_def dn l)
  finally show ?thesis .
qed

text \<open>
  Where no local midnight from the start date to the last day of the visible month is
  skipped, the walk visits its last day, and the effect with the time of day computes
  exactly what the effect over calendar days computes.
\<close>

lemma walkedLastDay_midnights:
  assumes "\<forall>D. dayNumber (startDateOf sd) \<le> D \<and> D \<le> dayNumber (lastDayOf cur) \<longrightarrow>
      localTime tz D 0 = 0"
    and "dayNumber (startDateOf sd) \<le> dayNumber (lastDayOf cur)"
  shows "walkedLastDay tz (startDateOf_tz tz sd) (lastDayOf_tz tz cur) = lastDayOf cur"
proof -
  have s: "localTime tz (dayNumber (startDateOf sd)) 0 = 0"
    and l: "localTime tz (dayNumber (lastDayOf cur)) 0 = 0"
    using assms by simp_all
  have "arrivalTime tz 0 (dayNumber (startDateOf sd)) (dayNumber (lastDayOf cur)) = 0"
    using assms(1) by (intro arrivalTime_steady) simp
  then show ?thesis
    by (simp add: walkedLastDay_def s l startDateOf_tz_parts lastDayOf_tz_parts)
qed

lemma regenerateSchedule_tz_midnights:
  assumes "\<forall>D. dayNumber (startDateOf sd) \<le> D \<and> D \<le> dayNumber (lastDayOf cur) \<longrightarrow>
      localTime tz D 0 = 0"
  shows "regenerateSchedule_tz tz ts sd mc cur = regenerateSchedule ts sd mc cur"
proof (cases "ts = []")
  case True
  have "map (\<lambda>d. \<lparr>date = formatDate (calendarDay d), teacherId = None\<rparr>)
          (getDatesInMonth_tz tz (getFullYear cur) (getMonth cur)) =
      map (\<lambda>d. \<lparr>date = formatDate d, teacherId = None\<rparr>)
          (map calendarDay (getDatesInMonth_tz tz (getFullYear cur) (getMonth cur)))"
    by (simp add: comp_def)
  then show ?thesis
    using True by (simp add: regenerateSchedule_tz_def regenerateSchedule_def getDatesInMonth_tz_days)
next
  case False
  have "generateSchedule_tz tz ts sd mc cur = generateSchedule ts sd mc cur"
  proof (cases "dayNumber (lastDayOf cur) < dayNumber (startDateOf sd)")
    case True
    then show ?thesis
      unfolding generateSchedule_tz_output [OF False] generateSchedule_output [OF False] by simp
  next
    case le: False
    then have "walkedLastDay tz (startDateOf_tz tz sd) (lastDayOf_tz tz cur) = lastDayOf cur"
      using assms by (intro walkedLastDay_midnights) simp_all
    then show ?thesis
      unfolding generateSchedule_tz_output [OF False] generateSchedule_output [OF False] by simp
  qed
  with False show ?thesis
    by (simp add: regenerateSchedule_tz_def regenerateSchedule_def)
qed

section \<open>Facts for the examples\<close>

lemma formatDate_jan:
  "formatDate (jan 1) = ''2024-01-01''" "formatDate (jan 2) = ''2024-01-02''"
  "formatDate (jan 3) = ''2024-01-03''" "formatDate (jan 4) = ''2024-01-04''"
  "formatDate (jan 5) = ''2024-01-05''"
  "formatDate (jan 30) = ''2024-01-30''" "formatDate (jan 31) = ''2024-01-31''"
  by code_simp+

lemma getMonth_jan: "0 \<le> getMonth (jan k)" "getMonth (jan k) < 12"
  by (simp_all add: jan_def)

lemma validDate_jan: "1 \<le> k \<Longrightarrow> k \<le> 31 \<Longrightarrow> validDate (jan k)"
  by (simp add: jan_def validDate_def DaysInMonth_def)

lemma dayNumber_jan: "dayNumber (jan k) = 19722 + k"
  by (simp add: jan_def dayNumber_def MakeDay_def DayFromYear_def DaysBeforeMonth_def)

lemma startDateOf_jan: "1 \<le> k \<Longrightarrow> k \<le> 31 \<Longrightarrow> startDateOf (2024, 1, k) = jan k"
  by (simp add: jan_def startDateOf_def new_Date_in_range fullYear_def DaysInMonth_def)

lemma lastDayOf_jan: "lastDayOf (jan k) = jan 31"
  using new_Date_last [of 0 2024] by (simp add: jan_def lastDayOf_def fullYear_def DaysInMonth_def)

lemma getDatesInMonth_jan:
  "getDatesInMonth (getFullYear (jan k)) (getMonth (jan k)) = map jan [1..31]"
  using getDatesInMonth_days [of 0 2024]
  by (simp add: jan_def [abs_def] fullYear_def DaysInMonth_def)

lemma jan_in_month: "1 \<le> j \<Longrightarrow> j \<le> 31 \<Longrightarrow>
    jan j \<in> set (getDatesInMonth (getFullYear (jan k)) (getMonth (jan k)))"
  unfolding getDatesInMonth_jan by simp

lemma jan_between:
  assumes "validDate e" "dayNumber e = dayNumber (jan k)" "1 \<le> k" "k \<le> 31"
  shows "e = jan k"
  using assms(1) validDate_jan [OF assms(3,4)] assms(2) by (rule dayNumber_inj)

lemma deleteScenario_after:
  "manualChanges (handleDeleteTeacher ''B'' deleteScenario) = Map.empty"
  "teachers (handleDeleteTeacher ''B'' deleteScenario) =
     [\<lparr>id' = ''A'', name = ''An''\<rparr>, \<lparr>id' = ''C'', name = ''Chi''\<rparr>]"
  by (auto simp: handleDeleteTeacher_def deleteScenario_def)

lemma deleteScenario_cursor:
  "cursorBefore [\<lparr>id' = ''A'', name = ''An''\<rparr>, \<lparr>id' = ''C'', name = ''Chi''\<rparr>] Map.empty
     (jan 1) (jan 2) = Some 1"
proof -
  have "cursorBefore [\<lparr>id' = ''A'', name = ''An''\<rparr>, \<lparr>id' = ''C'', name = ''Chi''\<rparr>] Map.empty
     (jan 1) (jan 2) = Some (dayNumber (jan 2) - dayNumber (jan 1))"
    by (rule cursor_rotation_stretch) (simp_all add: validDate_jan dayNumber_jan)
  then show ?thesis by (simp add: dayNumber_jan)
qed

lemma dayNumber_sep: "dayNumber (sep k) = 19966 + k"
  by (simp add: sep_def dayNumber_def MakeDay_def DayFromYear_def DaysBeforeMonth_def InLeapYear_def)

lemma santiago_localTime:
  "localTime santiago dayNo t =
     (if dayNo = 19974 \<and> 0 \<le> t \<and> t < 3600000 then t + 3600000 else t)"
  by (simp add: localTime_def santiago_def dayNumber_sep Let_def)

lemma arrivalTime_santiago: "arrivalTime santiago 0 19967 19996 = 3600000"
proof -
  have a: "arrivalTime santiago 0 19967 19973 = 0"
    by (rule arrivalTime_steady) (simp add: santiago_localTime)
  have "arrivalTime santiago 0 19973 19974 = arrivalTime santiago (localTime santiago 19974 0) 19974 19974"
    by (subst arrivalTime.simps) simp
  also have "\<dots> = localTime santiago 19974 0"
    by (subst arrivalTime.simps) simp
  finally have b: "arrivalTime santiago 0 19973 19974 = 3600000"
    by (simp add: santiago_localTime)
  have c: "arrivalTime santiago 3600000 19974 19996 = 3600000"
    by (rule arrivalTime_steady) (simp add: santiago_localTime)
  have "arrivalTime santiago 0 19967 19996 = arrivalTime santiago (arrivalTime santiago 0 19967 19973) 19973 19996"
    by (rule arrivalTime_split) simp_all
  also have "\<dots> = arrivalTime santiago (arrivalTime santiago 0 19973 19974) 19974 19996"
    unfolding a by (rule arrivalTime_split) simp_all
  finally show ?thesis unfolding b c .
qed

lemma formatDate_sep:
  "formatDate (sep 1) = ''2024-09-01''" "formatDate (sep 2) = ''2024-09-02''"
  "formatDate (sep 29) = ''2024-09-29''" "formatDate (sep 30) = ''2024-09-30''"
  by code_simp+

lemma startDateOf_sep: "startDateOf (2024, 9, 1) = sep 1"
  by (simp add: sep_def startDateOf_def new_Date_in_range fullYear_def DaysInMonth_def)

lemma lastDayOf_sep: "lastDayOf (sep k) = sep 30"
  using new_Date_last [of 8 2024] by (simp add: sep_def lastDayOf_def fullYear_def DaysInMonth_def)

text \<open>
  In the zone of the example, the walk from 2024-09-01 for September 2024 arrives at
  September 30 at 01:00, later than \<open>lastDayOfVisibleMonth\<close>, and so ends on September 29.
\<close>

lemma walkedLastDay_santiago:
  "walkedLastDay santiago (startDateOf_tz santiago (2024, 9, 1)) (lastDayOf_tz santiago (sep 15))
     = sep 29"
proof -
  have "setDate (sep 30) (getDate (sep 30) - 1) = sep 29"
    by (rule dayNumber_inj) (simp_all add: setDate_valid dayNumber_setDate dayNumber_sep,
      simp add: sep_def validDate_def DaysInMonth_def)
  then show ?thesis
    by (simp add: walkedLastDay_def startDateOf_tz_parts lastDayOf_tz_parts startDateOf_sep
        lastDayOf_sep dayNumber_sep santiago_localTime arrivalTime_santiago)
qed

section \<open>The claims\<close>

text \<open>
  Claim C1, as amended.  \<open>handleDeleteTeacher\<close> removes the teacher from the roster and
  removes from the override map every entry whose value is the teacher's id; every other
  entry is kept as it is, so that no entry names the deleted id afterwards.  On the
  recomputations that follow, the date of a removed entry is a day without override: on or
  after the start date and before the last day of the walk, and with a roster that is still
  not empty, it is assigned \<open>teachers[cursor mod n]\<close> of the new roster and the cursor
  advances by one.  (Of the last day of the walk nothing is said here: whether the walk
  reaches it depends on the time of day, see the section on time zones.)
\<close>

theorem delete_teacher_removes_overrides:
  "manualChanges (handleDeleteTeacher tid s) k =
     (if manualChanges s k = Some tid then None else manualChanges s k) \<and>
   dom (manualChanges (handleDeleteTeacher tid s)) =
     dom (manualChanges s) - {k. manualChanges s k = Some tid} \<and>
   tid \<notin> ran (manualChanges (handleDeleteTeacher tid s)) \<and>
   teachers (handleDeleteTeacher tid s) = filter (\<lambda>t. id' t \<noteq> tid) (teachers s) \<and>
   (validDate d \<and> dayNumber (startDateOf sd) \<le> dayNumber d \<and> dayNumber d < dayNumber lastDay \<and>
    manualChanges s (formatDate d) = Some tid \<and> teachers (handleDeleteTeacher tid s) \<noteq> [] \<longrightarrow>
      (\<exists>c. cursorBefore (teachers (handleDeleteTeacher tid s))
              (manualChanges (handleDeleteTeacher tid s)) (startDateOf sd) d = Some c \<and> 0 \<le> c \<and>
           assignedOn (teachers (handleDeleteTeacher tid s))
              (manualChanges (handleDeleteTeacher tid s)) (startDateOf sd) lastDay d =
             Some (Some (id' (teachers (handleDeleteTeacher tid s) !
                           (nat c mod length (teachers (handleDeleteTeacher tid s)))))) \<and>
           cursorAfter (teachers (handleDeleteTeacher tid s))
              (manualChanges (handleDeleteTeacher tid s)) (startDateOf sd) d = Some (c + 1)))"
proof -
  let ?s = "handleDeleteTeacher tid s"
  have 1: "manualChanges ?s k = (if manualChanges s k = Some tid then None else manualChanges s k)"
    for k
    by (cases "manualChanges s k") (simp_all add: handleDeleteTeacher_def)
  have 2: "dom (manualChanges ?s) = dom (manualChanges s) - {k. manualChanges s k = Some tid}"
    using 1 by (auto simp: dom_def)
  have 3: "tid \<notin> ran (manualChanges ?s)"
    using 1 by (auto simp: ran_def)
  have 4: "teachers ?s = filter (\<lambda>t. id' t \<noteq> tid) (teachers s)"
    by (simp add: handleDeleteTeacher_def)
  have 5: "\<exists>c. cursorBefore (teachers ?s) (manualChanges ?s) (startDateOf sd) d = Some c \<and> 0 \<le> c \<and>
      assignedOn (teachers ?s) (manualChanges ?s) (startDateOf sd) lastDay d =
        Some (Some (id' (teachers ?s ! (nat c mod length (teachers ?s))))) \<and>
      cursorAfter (teachers ?s) (manualChanges ?s) (startDateOf sd) d = Some (c + 1)"
    if "validDate d" "dayNumber (startDateOf sd) \<le> dayNumber d" "dayNumber d < dayNumber lastDay"
      "manualChanges s (formatDate d) = Some tid" "teachers ?s \<noteq> []"
  proof (rule rotation_day [where mc = "manualChanges ?s",
        OF that(5) startDateOf_valid that(1,2) less_imp_le [OF that(3)]])
    show "manualChanges ?s (formatDate d) = None \<or> manualChanges ?s (formatDate d) = Some []"
      using 1 [of "formatDate d"] that(4) by simp
  qed
  from 1 [of k] 2 3 4 5 show ?thesis by blast
qed

theorem delete_teacher_removes_overrides_witness:
  "manualChanges (handleDeleteTeacher ''B'' deleteScenario) ''2024-01-02'' = None \<and>
   dom (manualChanges (handleDeleteTeacher ''B'' deleteScenario)) = {} \<and>
   ''B'' \<notin> ran (manualChanges (handleDeleteTeacher ''B'' deleteScenario)) \<and>
   teachers (handleDeleteTeacher ''B'' deleteScenario) =
     [\<lparr>id' = ''A'', name = ''An''\<rparr>, \<lparr>id' = ''C'', name = ''Chi''\<rparr>] \<and>
   assignedOn (teachers (handleDeleteTeacher ''B'' deleteScenario))
     (manualChanges (handleDeleteTeacher ''B'' deleteScenario))
     (startDateOf (2024, 1, 1)) (jan 31) (jan 2) = Some (Some ''C'') \<and>
   cursorAfter (teachers (handleDeleteTeacher ''B'' deleteScenario))
     (manualChanges (handleDeleteTeacher ''B'' deleteScenario))
     (startDateOf (2024, 1, 1)) (jan 2) = Some 2"
proof -
  let ?s = "handleDeleteTeacher ''B'' deleteScenario"
  have start: "startDateOf (2024, 1, 1) = jan 1" by (simp add: startDateOf_jan)
  have before: "manualChanges deleteScenario (formatDate (jan 2)) = Some ''B''"
    by (simp add: deleteScenario_def formatDate_jan)
  note th = delete_teacher_removes_overrides [where tid = "''B''" and s = deleteScenario
      and k = "''2024-01-02''" and d = "jan 2" and sd = "(2024, 1, 1)" and lastDay = "jan 31"]
  have a: "manualChanges ?s ''2024-01-02'' = None"
    using th [THEN conjunct1] by (simp add: deleteScenario_def)
  have b: "dom (manualChanges ?s) = {}"
    using th [THEN conjunct2, THEN conjunct1] by (auto simp: deleteScenario_def)
  have r: "''B'' \<notin> ran (manualChanges ?s)"
    using th [THEN conjunct2, THEN conjunct2, THEN conjunct1] .
  have d: "teachers ?s = [\<lparr>id' = ''A'', name = ''An''\<rparr>, \<lparr>id' = ''C'', name = ''Chi''\<rparr>]"
    using th [THEN conjunct2, THEN conjunct2, THEN conjunct2, THEN conjunct1]
    by (simp add: deleteScenario_def)
  from th [THEN conjunct2, THEN conjunct2, THEN conjunct2, THEN conjunct2] before
  obtain c where c: "cursorBefore (teachers ?s) (manualChanges ?s) (startDateOf (2024, 1, 1)) (jan 2)
        = Some c"
    "assignedOn (teachers ?s) (manualChanges ?s) (startDateOf (2024, 1, 1)) (jan 31) (jan 2) =
       Some (Some (id' (teachers ?s ! (nat c mod length (teachers ?s)))))"
    "cursorAfter (teachers ?s) (manualChanges ?s) (startDateOf (2024, 1, 1)) (jan 2) = Some (c + 1)"
    by (auto simp: validDate_jan dayNumber_jan start d)
  from c(1) have "c = 1"
    by (simp add: deleteScenario_after start deleteScenario_cursor)
  with c(2,3) have e: "assignedOn (teachers ?s) (manualChanges ?s) (startDateOf (2024, 1, 1))
        (jan 31) (jan 2) = Some (Some ''C'')"
    and f: "cursorAfter (teachers ?s) (manualChanges ?s) (startDateOf (2024, 1, 1)) (jan 2) = Some 2"
    by (simp_all add: d)
  from a b r d e f show ?thesis by (intro conjI)
qed

text \<open>
  The claim as it was stated fails in the specification's own scenario: after the
  deletion of \<open>B\<close> the override map has no entry for 2024-01-02 any more, and the
  recomputation gives that day to \<open>C\<close>, the teacher whose turn it is, not to nobody.
\<close>

theorem delete_teacher_removes_overrides_counterexample:
  "manualChanges deleteScenario ''2024-01-02'' = Some ''B'' \<and>
   manualChanges (handleDeleteTeacher ''B'' deleteScenario) ''2024-01-02'' = None \<and>
   ''2024-01-02'' \<notin> dom (manualChanges (handleDeleteTeacher ''B'' deleteScenario)) \<and>
   assignedOn (teachers (handleDeleteTeacher ''B'' deleteScenario))
     (manualChanges (handleDeleteTeacher ''B'' deleteScenario))
     (startDateOf (2024, 1, 1)) (lastDayOf (jan 15)) (jan 2) = Some (Some ''C'') \<and>
   (\<exists>shifts. regenerateSchedule (teachers (handleDeleteTeacher ''B'' deleteScenario)) (2024, 1, 1)
        (manualChanges (handleDeleteTeacher ''B'' deleteScenario)) (jan 15) = Inr shifts \<and>
      \<lparr>date = ''2024-01-02'', teacherId = Some ''C''\<rparr> \<in> set shifts)"
proof -
  let ?ts = "[\<lparr>id' = ''A'', name = ''An''\<rparr>, \<lparr>id' = ''C'', name = ''Chi''\<rparr>]"
  have start: "startDateOf (2024, 1, 1) = jan 1" by (simp add: startDateOf_jan)
  from rotation_day [where ts = ?ts and mc = Map.empty and start = "jan 1" and d = "jan 2"
      and lastDay = "jan 31"]
  have "\<exists>c. cursorBefore ?ts Map.empty (jan 1) (jan 2) = Some c \<and> 0 \<le> c \<and>
     assignedOn ?ts Map.empty (jan 1) (jan 31) (jan 2) = Some (Some (id' (?ts ! (nat c mod length ?ts)))) \<and>
     cursorAfter ?ts Map.empty (jan 1) (jan 2) = Some (c + 1)"
    by (simp add: validDate_jan dayNumber_jan)
  then have a: "assignedOn ?ts Map.empty (jan 1) (jan 31) (jan 2) = Some (Some ''C'')"
    by (auto simp: deleteScenario_cursor)
  have "\<exists>shifts. generateSchedule ?ts (2024, 1, 1) Map.empty (jan 15) = Inr shifts \<and>
      \<lparr>date = formatDate (jan 2), teacherId = Some ''C''\<rparr> \<in> set shifts"
    by (rule output_entry)
      (simp_all add: getMonth_jan jan_in_month start lastDayOf_jan dayNumber_jan a)
  then have b: "\<exists>shifts. regenerateSchedule ?ts (2024, 1, 1) Map.empty (jan 15) = Inr shifts \<and>
      \<lparr>date = ''2024-01-02'', teacherId = Some ''C''\<rparr> \<in> set shifts"
    by (simp add: regenerateSchedule_def formatDate_jan)
  have c: "manualChanges deleteScenario ''2024-01-02'' = Some ''B''"
    by (simp add: deleteScenario_def)
  from a b c show ?thesis
    unfolding deleteScenario_after start lastDayOf_jan by (simp add: dom_def)
qed

text \<open>
  Claim C2, which the code does not meet in every time zone.  The claim is that with a
  roster of \<open>n > 0\<close> teachers, no overrides and the start date on the first day of the
  visible month, day \<open>k\<close> of the month is assigned \<open>teachers[(k - 1) mod n]\<close>.  The code
  does so on every day of the month but the last, and on the last day when the walk visits
  it (lemma \<open>regenerateSchedule_tz_rotation\<close>).  Where the clocks skip a local midnight
  between the start date and the last day of the month it does not: \<open>setDate\<close> keeps the
  pointer's local time of day, which is 01:00 from the day of the skipped midnight on, so
  that on the last day the pointer is later than \<open>lastDayOfVisibleMonth\<close> and the loop of
  lines 193-215 ends a day early.  In the zone America/Santiago, with roster \<open>[A, B]\<close>,
  no overrides, start date 2024-09-01 and September 2024 shown, the days from September 1
  to 29 take their turns and September 30 is assigned nobody, where the claim gives it
  \<open>teachers[29 mod 2]\<close>, which is \<open>B\<close>; in a zone whose clocks are never set forward the
  same input gives September 30 to \<open>B\<close>.
\<close>

theorem skipped_midnight_loses_last_day:
  "regenerateSchedule_tz santiago
     [\<lparr>id' = ''A'', name = ''An''\<rparr>, \<lparr>id' = ''B'', name = ''Binh''\<rparr>]
     (2024, 9, 1) Map.empty (sep 15) =
   Inr (map (\<lambda>k. \<lparr>date = formatDate (sep k),
                    teacherId =
                      (if k < 30
                       then Some (id' ([\<lparr>id' = ''A'', name = ''An''\<rparr>,
                                        \<lparr>id' = ''B'', name = ''Binh''\<rparr>] ! (nat (k - 1) mod 2)))
                       else None)\<rparr>)
          [1..30]) \<and>
   (\<exists>shifts. regenerateSchedule_tz santiago
        [\<lparr>id' = ''A'', name = ''An''\<rparr>, \<lparr>id' = ''B'', name = ''Binh''\<rparr>]
        (2024, 9, 1) Map.empty (sep 15) = Inr shifts \<and>
      length shifts = 30 \<and>
      shifts ! 0 = \<lparr>date = ''2024-09-01'', teacherId = Some ''A''\<rparr> \<and>
      shifts ! 1 = \<lparr>date = ''2024-09-02'', teacherId = Some ''B''\<rparr> \<and>
      shifts ! 28 = \<lparr>date = ''2024-09-29'', teacherId = Some ''A''\<rparr> \<and>
      shifts ! 29 = \<lparr>date = ''2024-09-30'', teacherId = None\<rparr>) \<and>
   id' ([\<lparr>id' = ''A'', name = ''An''\<rparr>, \<lparr>id' = ''B'', name = ''Binh''\<rparr>] ! (nat (30 - 1) mod 2)) = ''B'' \<and>
   (\<exists>shifts. regenerateSchedule_tz steadyZone
        [\<lparr>id' = ''A'', name = ''An''\<rparr>, \<lparr>id' = ''B'', name = ''Binh''\<rparr>]
        (2024, 9, 1) Map.empty (sep 15) = Inr shifts \<and>
      length shifts = 30 \<and>
      shifts ! 29 = \<lparr>date = ''2024-09-30'', teacherId = Some ''B''\<rparr>)"
proof -
  let ?ts = "[\<lparr>id' = ''A'', name = ''An''\<rparr>, \<lparr>id' = ''B'', name = ''Binh''\<rparr>]"
  let ?out = "map (\<lambda>k. \<lparr>date = formatDate (sep k),
                    teacherId = (if k < 30 then Some (id' (?ts ! (nat (k - 1) mod 2))) else None)\<rparr>)
          [1..30]"
  let ?all = "map (\<lambda>k. \<lparr>date = formatDate (sep k),
                    teacherId = Some (id' (?ts ! (nat (k - 1) mod 2)))\<rparr>)
          [1..30]"
  have ne: "sep 29 \<noteq> lastDayOf (sep 15)"
    unfolding lastDayOf_sep by (simp add: sep_def)
  have first: "startDateOf (2024, 9, 1) = new_Date (getFullYear (sep 15)) (getMonth (sep 15)) 1"
    by (simp add: startDateOf_def sep_def)
  from regenerateSchedule_tz_rotation [where ts = ?ts and cur = "sep 15" and sd = "(2024, 9, 1)"
      and tz = santiago, OF _ _ _ first]
  have a: "regenerateSchedule_tz santiago ?ts (2024, 9, 1) Map.empty (sep 15) = Inr ?out"
    unfolding walkedLastDay_santiago using ne
    by (simp add: sep_def [abs_def] fullYear_def DaysInMonth_def numeral_2_eq_2 [symmetric])
  have nth: "?out ! n = \<lparr>date = formatDate (sep (1 + int n)),
      teacherId = (if 1 + int n < 30 then Some (id' (?ts ! (nat (int n) mod 2))) else None)\<rparr>"
    if "n < 30" for n
    using that by (simp add: nth_upto)
  have m: "(1::nat) mod 2 = 1" "(28::nat) mod 2 = 0" "(29::nat) mod 2 = 1" by simp_all
  have b: "length ?out = 30" by simp
  have c: "?out ! 0 = \<lparr>date = ''2024-09-01'', teacherId = Some ''A''\<rparr>"
    using nth [of 0] by (simp add: formatDate_sep)
  have d: "?out ! 1 = \<lparr>date = ''2024-09-02'', teacherId = Some ''B''\<rparr>"
    using nth [of 1] by (simp add: formatDate_sep)
  have e: "?out ! 28 = \<lparr>date = ''2024-09-29'', teacherId = Some ''A''\<rparr>"
    using nth [of 28] by (simp add: formatDate_sep m)
  have f: "?out ! 29 = \<lparr>date = ''2024-09-30'', teacherId = None\<rparr>"
    using nth [of 29] by (simp add: formatDate_sep)
  have g: "id' (?ts ! (nat (30 - 1) mod 2)) = ''B''"
    by (simp add: m)
  from a b c d e f have h: "\<exists>shifts. regenerateSchedule_tz santiago ?ts (2024, 9, 1) Map.empty (sep 15)
        = Inr shifts \<and> length shifts = 30 \<and>
      shifts ! 0 = \<lparr>date = ''2024-09-01'', teacherId = Some ''A''\<rparr> \<and>
      shifts ! 1 = \<lparr>date = ''2024-09-02'', teacherId = Some ''B''\<rparr> \<and>
      shifts ! 28 = \<lparr>date = ''2024-09-29'', teacherId = Some ''A''\<rparr> \<and>
      shifts ! 29 = \<lparr>date = ''2024-09-30'', teacherId = None\<rparr>"
    by (intro exI [where x = ?out] conjI)
  have "walkedLastDay steadyZone (startDateOf_tz steadyZone (2024, 9, 1))
      (lastDayOf_tz steadyZone (sep 15)) = lastDayOf (sep 15)"
    by (rule walkedLastDay_midnights)
      (simp_all add: localTime_def steadyZone_def startDateOf_sep lastDayOf_sep dayNumber_sep)
  with regenerateSchedule_tz_rotation [where ts = ?ts and cur = "sep 15" and sd = "(2024, 9, 1)"
      and tz = steadyZone, OF _ _ _ first]
  have s: "regenerateSchedule_tz steadyZone ?ts (2024, 9, 1) Map.empty (sep 15) = Inr ?all"
    by (simp add: sep_def [abs_def] fullYear_def DaysInMonth_def numeral_2_eq_2 [symmetric])
  have "?all ! 29 = \<lparr>date = formatDate (sep (1 + int 29)),
      teacherId = Some (id' (?ts ! (nat (int 29) mod 2)))\<rparr>"
    by (simp add: nth_upto)
  then have "?all ! 29 = \<lparr>date = ''2024-09-30'', teacherId = Some ''B''\<rparr>"
    by (simp add: formatDate_sep m)
  moreover have "length ?all = 30" by simp
  ultimately have i: "\<exists>shifts. regenerateSchedule_tz steadyZone ?ts (2024, 9, 1) Map.empty (sep 15)
        = Inr shifts \<and> length shifts = 30 \<and>
      shifts ! 29 = \<lparr>date = ''2024-09-30'', teacherId = Some ''B''\<rparr>"
    using s by (intro exI [where x = ?all] conjI)
  from a h g i show ?thesis by (intro conjI)
qed

text \<open>
  Claim C3, as amended.  Let the ids of the roster be distinct and let \<open>T\<close> be the id of
  the teacher at index \<open>i\<close>, not the empty string and not the sentinel string.  For a
  date \<open>d\<close> on or after the start date and before the last day of the walk whose override
  is \<open>T\<close>, the generator assigns \<open>T\<close> to \<open>d\<close> and leaves the day with the cursor \<open>i + 1\<close>.
  The next day after \<open>d\<close> that has no override, when it lies before the last day of the
  walk, is assigned \<open>teachers[(i + 1) mod n]\<close> provided that every day strictly between the
  two carries an override that assigns nobody (the sentinel or an id outside the roster);
  an override in between that names a teacher of the roster sets the cursor anew.  When \<open>d\<close>
  is a day of the visible month other than its last, the output lists it with \<open>T\<close>.  (Of
  the last day of the walk nothing is said here: whether the walk reaches it depends on the
  time of day, see the section on time zones.)
\<close>

theorem pick_resets_cursor:
  assumes "distinct (map id' ts)" "i < length ts" "id' (ts ! i) = T"
    and "T \<noteq> []" "T \<noteq> ''__EMPTY__''"
    and "validDate d" "dayNumber (startDateOf sd) \<le> dayNumber d" "dayNumber d < dayNumber lastDay"
    and "mc (formatDate d) = Some T"
  shows "assignedOn ts mc (startDateOf sd) lastDay d = Some (Some T) \<and>
     cursorAfter ts mc (startDateOf sd) d = Some (int i + 1) \<and>
     (\<forall>d'. validDate d' \<and> dayNumber d < dayNumber d' \<and> dayNumber d' < dayNumber lastDay \<and>
           mc (formatDate d') = None \<and>
           (\<forall>e. validDate e \<and> dayNumber d < dayNumber e \<and> dayNumber e < dayNumber d' \<longrightarrow>
              inertOverride ts (mc (formatDate e))) \<longrightarrow>
        assignedOn ts mc (startDateOf sd) lastDay d' =
          Some (Some (id' (ts ! ((i + 1) mod length ts))))) \<and>
     (0 \<le> getMonth cur \<and> getMonth cur < 12 \<and>
      d \<in> set (getDatesInMonth (getFullYear cur) (getMonth cur)) \<and>
      dayNumber d < dayNumber (lastDayOf cur) \<longrightarrow>
        (\<exists>shifts. regenerateSchedule ts sd mc cur = Inr shifts \<and>
           \<lparr>date = formatDate d, teacherId = Some T\<rparr> \<in> set shifts))"
proof -
  have ts: "ts \<noteq> []" using assms(2) by auto
  note pick = pick_day [where mc = mc, OF assms(1-5) startDateOf_valid assms(6,7) _ assms(9)]
  have 1: "assignedOn ts mc (startDateOf sd) lastDay d = Some (Some T)"
    using less_imp_le [OF assms(8)] by (rule pick(1))
  have 2: "cursorAfter ts mc (startDateOf sd) d = Some (int i + 1)"
    using less_imp_le [OF assms(8)] by (rule pick(2))
  have 3: "assignedOn ts mc (startDateOf sd) lastDay d' =
      Some (Some (id' (ts ! ((i + 1) mod length ts))))"
    if "validDate d'" "dayNumber d < dayNumber d'" "dayNumber d' < dayNumber lastDay"
      "mc (formatDate d') = None"
      "\<forall>e. validDate e \<and> dayNumber d < dayNumber e \<and> dayNumber e < dayNumber d' \<longrightarrow>
         inertOverride ts (mc (formatDate e))" for d'
  proof -
    have "assignedOn ts mc (startDateOf sd) lastDay d' =
        Some (Some (id' (ts ! (nat (int i + 1) mod length ts))))"
    proof (rule next_unoverridden(1) [where mc = mc,
          OF ts startDateOf_valid assms(6,7) 2 _ that(1,2) less_imp_le [OF that(3)] that(4)])
      show "\<forall>e. validDate e \<longrightarrow> dayNumber d < dayNumber e \<longrightarrow> dayNumber e < dayNumber d' \<longrightarrow>
          inertOverride ts (mc (formatDate e))"
        using that(5) by blast
    qed simp
    moreover have "nat (int i + 1) = i + 1" by simp
    ultimately show ?thesis by simp
  qed
  have 4: "\<exists>shifts. regenerateSchedule ts sd mc cur = Inr shifts \<and>
      \<lparr>date = formatDate d, teacherId = Some T\<rparr> \<in> set shifts"
    if m: "0 \<le> getMonth cur" "getMonth cur < 12"
      and mem: "d \<in> set (getDatesInMonth (getFullYear cur) (getMonth cur))"
      and notlast: "dayNumber d < dayNumber (lastDayOf cur)"
  proof -
    have "dayNumber d \<le> dayNumber (lastDayOf cur)" using notlast by simp
    then have "assignedOn ts mc (startDateOf sd) (lastDayOf cur) d = Some (Some T)"
      by (rule pick(1))
    with ts m mem assms(7)
    have "\<exists>shifts. generateSchedule ts sd mc cur = Inr shifts \<and>
        \<lparr>date = formatDate d, teacherId = Some T\<rparr> \<in> set shifts"
      by (rule output_entry)
    then show ?thesis using ts by (simp add: regenerateSchedule_def)
  qed
  from 1 2 3 4 show ?thesis by blast
qed

text \<open>
  An instance: roster \<open>[A, B, C]\<close>, start date 2024-01-01, \<open>A\<close> picked for January 2 and
  the sentinel stored for January 3.  January 2 is assigned \<open>A\<close>, the walk leaves it with
  cursor 1, and January 4, the next day without an override, is assigned \<open>B\<close>.
\<close>

theorem pick_resets_cursor_witness:
  "assignedOn [\<lparr>id' = ''A'', name = ''An''\<rparr>, \<lparr>id' = ''B'', name = ''Binh''\<rparr>, \<lparr>id' = ''C'', name = ''Chi''\<rparr>]
      [''2024-01-02'' \<mapsto> ''A'', ''2024-01-03'' \<mapsto> ''__EMPTY__'']
      (startDateOf (2024, 1, 1)) (jan 31) (jan 2) = Some (Some ''A'') \<and>
   cursorAfter [\<lparr>id' = ''A'', name = ''An''\<rparr>, \<lparr>id' = ''B'', name = ''Binh''\<rparr>, \<lparr>id' = ''C'', name = ''Chi''\<rparr>]
      [''2024-01-02'' \<mapsto> ''A'', ''2024-01-03'' \<mapsto> ''__EMPTY__'']
      (startDateOf (2024, 1, 1)) (jan 2) = Some 1 \<and>
   assignedOn [\<lparr>id' = ''A'', name = ''An''\<rparr>, \<lparr>id' = ''B'', name = ''Binh''\<rparr>, \<lparr>id' = ''C'', name = ''Chi''\<rparr>]
      [''2024-01-02'' \<mapsto> ''A'', ''2024-01-03'' \<mapsto> ''__EMPTY__'']
      (startDateOf (2024, 1, 1)) (jan 31) (jan 4) = Some (Some ''B'') \<and>
   (\<exists>shifts. regenerateSchedule
        [\<lparr>id' = ''A'', name = ''An''\<rparr>, \<lparr>id' = ''B'', name = ''Binh''\<rparr>, \<lparr>id' = ''C'', name = ''Chi''\<rparr>]
        (2024, 1, 1) [''2024-01-02'' \<mapsto> ''A'', ''2024-01-03'' \<mapsto> ''__EMPTY__''] (jan 15)
          = Inr shifts \<and>
      \<lparr>date = ''2024-01-02'', teacherId = Some ''A''\<rparr> \<in> set shifts)"
proof -
  let ?ts = "[\<lparr>id' = ''A'', name = ''An''\<rparr>, \<lparr>id' = ''B'', name = ''Binh''\<rparr>, \<lparr>id' = ''C'', name = ''Chi''\<rparr>]"
  let ?mc = "[''2024-01-02'' \<mapsto> ''A'', ''2024-01-03'' \<mapsto> ''__EMPTY__'']"
  have start: "startDateOf (2024, 1, 1) = jan 1" by (simp add: startDateOf_jan)
  note th = pick_resets_cursor [where ts = ?ts and i = 0 and T = "''A''" and d = "jan 2"
      and sd = "(2024, 1, 1)" and lastDay = "jan 31" and mc = ?mc and cur = "jan 15"]
  have th': "assignedOn ?ts ?mc (startDateOf (2024, 1, 1)) (jan 31) (jan 2) = Some (Some ''A'') \<and>
     cursorAfter ?ts ?mc (startDateOf (2024, 1, 1)) (jan 2) = Some (int 0 + 1) \<and>
     (\<forall>d'. validDate d' \<and> dayNumber (jan 2) < dayNumber d' \<and> dayNumber d' < dayNumber (jan 31) \<and>
           ?mc (formatDate d') = None \<and>
           (\<forall>e. validDate e \<and> dayNumber (jan 2) < dayNumber e \<and> dayNumber e < dayNumber d' \<longrightarrow>
              inertOverride ?ts (?mc (formatDate e))) \<longrightarrow>
        assignedOn ?ts ?mc (startDateOf (2024, 1, 1)) (jan 31) d' =
          Some (Some (id' (?ts ! ((0 + 1) mod length ?ts))))) \<and>
     (0 \<le> getMonth (jan 15) \<and> getMonth (jan 15) < 12 \<and>
      jan 2 \<in> set (getDatesInMonth (getFullYear (jan 15)) (getMonth (jan 15))) \<and>
      dayNumber (jan 2) < dayNumber (lastDayOf (jan 15)) \<longrightarrow>
        (\<exists>shifts. regenerateSchedule ?ts (2024, 1, 1) ?mc (jan 15) = Inr shifts \<and>
           \<lparr>date = formatDate (jan 2), teacherId = Some ''A''\<rparr> \<in> set shifts))"
    by (rule th) (simp_all add: validDate_jan dayNumber_jan start formatDate_jan)
  have a: "assignedOn ?ts ?mc (startDateOf (2024, 1, 1)) (jan 31) (jan 2) = Some (Some ''A'')"
    using th' by (rule conjunct1)
  have b: "cursorAfter ?ts ?mc (startDateOf (2024, 1, 1)) (jan 2) = Some 1"
    using th' [THEN conjunct2, THEN conjunct1] by simp
  have "assignedOn ?ts ?mc (startDateOf (2024, 1, 1)) (jan 31) (jan 4) =
      Some (Some (id' (?ts ! ((0 + 1) mod length ?ts))))"
  proof (rule th' [THEN conjunct2, THEN conjunct2, THEN conjunct1, rule_format], intro conjI allI impI)
    fix e
    assume e: "validDate e \<and> dayNumber (jan 2) < dayNumber e \<and> dayNumber e < dayNumber (jan 4)"
    then have "dayNumber e = dayNumber (jan 3)" by (simp add: dayNumber_jan)
    with e have "e = jan 3" by (intro jan_between) simp_all
    then show "inertOverride ?ts (?mc (formatDate e))"
      by (simp add: formatDate_jan inertOverride_def)
  qed (simp_all add: validDate_jan dayNumber_jan formatDate_jan)
  then have c: "assignedOn ?ts ?mc (startDateOf (2024, 1, 1)) (jan 31) (jan 4) = Some (Some ''B'')"
    by simp
  have d: "\<exists>shifts. regenerateSchedule ?ts (2024, 1, 1) ?mc (jan 15) = Inr shifts \<and>
      \<lparr>date = ''2024-01-02'', teacherId = Some ''A''\<rparr> \<in> set shifts"
    using th' [THEN conjunct2, THEN conjunct2, THEN conjunct2] jan_in_month [of 2 15]
      getMonth_jan [of 15]
    by (simp add: formatDate_jan lastDayOf_jan dayNumber_jan)
  from a b c d show ?thesis by (intro conjI)
qed

text \<open>
  The claim as it was stated fails in three ways.  With roster \<open>[A, B, C]\<close>, start date
  2024-01-01 and the overrides \<open>A\<close> for January 1 and \<open>C\<close> for January 2, the next day
  after January 1 that has no override is January 3; the claim gives it
  \<open>teachers[(0 + 1) mod 3]\<close>, which is \<open>B\<close>, and the generator assigns \<open>A\<close>, the teacher after
  \<open>C\<close>.  A teacher whose id is the sentinel string is never assigned by an override that
  names it, and an override that is the empty string is no override at all, also when a
  teacher has the empty string as id.
\<close>

theorem pick_resets_cursor_counterexample:
  "[''2024-01-01'' \<mapsto> ''A'', ''2024-01-02'' \<mapsto> ''C''] (formatDate (jan 1)) = Some ''A'' \<and>
   [''2024-01-01'' \<mapsto> ''A'', ''2024-01-02'' \<mapsto> ''C''] (formatDate (jan 2)) = Some ''C'' \<and>
   [''2024-01-01'' \<mapsto> ''A'', ''2024-01-02'' \<mapsto> ''C''] (formatDate (jan 3)) = None \<and>
   id' ([\<lparr>id' = ''A'', name = ''An''\<rparr>, \<lparr>id' = ''B'', name = ''Binh''\<rparr>, \<lparr>id' = ''C'', name = ''Chi''\<rparr>] ! 0) = ''A'' \<and>
   id' ([\<lparr>id' = ''A'', name = ''An''\<rparr>, \<lparr>id' = ''B'', name = ''Binh''\<rparr>, \<lparr>id' = ''C'', name = ''Chi''\<rparr>]
         ! ((0 + 1) mod 3)) = ''B'' \<and>
   assignedOn [\<lparr>id' = ''A'', name = ''An''\<rparr>, \<lparr>id' = ''B'', name = ''Binh''\<rparr>, \<lparr>id' = ''C'', name = ''Chi''\<rparr>]
      [''2024-01-01'' \<mapsto> ''A'', ''2024-01-02'' \<mapsto> ''C'']
      (startDateOf (2024, 1, 1)) (lastDayOf (jan 15)) (jan 3) = Some (Some ''A'') \<and>
   (\<exists>shifts. regenerateSchedule
        [\<lparr>id' = ''A'', name = ''An''\<rparr>, \<lparr>id' = ''B'', name = ''Binh''\<rparr>, \<lparr>id' = ''C'', name = ''Chi''\<rparr>]
        (2024, 1, 1) [''2024-01-01'' \<mapsto> ''A'', ''2024-01-02'' \<mapsto> ''C''] (jan 15) = Inr shifts \<and>
      \<lparr>date = ''2024-01-03'', teacherId = Some ''A''\<rparr> \<in> set shifts) \<and>
   [''2024-01-01'' \<mapsto> ''__EMPTY__''] (formatDate (jan 1)) =
      Some (id' ([\<lparr>id' = ''__EMPTY__'', name = ''Xuan''\<rparr>] ! 0)) \<and>
   assignedOn [\<lparr>id' = ''__EMPTY__'', name = ''Xuan''\<rparr>] [''2024-01-01'' \<mapsto> ''__EMPTY__'']
      (startDateOf (2024, 1, 1)) (lastDayOf (jan 15)) (jan 1) = Some None \<and>
   [''2024-01-01'' \<mapsto> ''''] (formatDate (jan 1)) =
      Some (id' ([\<lparr>id' = ''Y'', name = ''Yen''\<rparr>, \<lparr>id' = '''', name = ''Xuan''\<rparr>] ! 1)) \<and>
   assignedOn [\<lparr>id' = ''Y'', name = ''Yen''\<rparr>, \<lparr>id' = '''', name = ''Xuan''\<rparr>] [''2024-01-01'' \<mapsto> '''']
      (startDateOf (2024, 1, 1)) (lastDayOf (jan 15)) (jan 1) = Some (Some ''Y'')"
proof -
  let ?ts = "[\<lparr>id' = ''A'', name = ''An''\<rparr>, \<lparr>id' = ''B'', name = ''Binh''\<rparr>, \<lparr>id' = ''C'', name = ''Chi''\<rparr>]"
  let ?mc = "[''2024-01-01'' \<mapsto> ''A'', ''2024-01-02'' \<mapsto> ''C'']"
  have start: "startDateOf (2024, 1, 1) = jan 1" by (simp add: startDateOf_jan)
  have v: "validDate (jan 1)" "validDate (jan 2)" "validDate (jan 3)"
    by (simp_all add: validDate_jan)
  have after2: "cursorAfter ?ts ?mc (jan 1) (jan 2) = Some (int 2 + 1)"
    by (rule pick_day(2) [where mc = ?mc and T = "''C''" and lastDay = "jan 2"])
      (simp_all add: v dayNumber_jan formatDate_jan)
  have third: "assignedOn ?ts ?mc (jan 1) (jan 31) (jan 3) =
      Some (Some (id' (?ts ! (nat (int 2 + 1) mod length ?ts))))"
  proof (rule next_unoverridden(1) [where mc = ?mc and d = "jan 2", OF _ v(1,2) _ after2 _ v(3)])
    show "\<forall>e. validDate e \<longrightarrow> dayNumber (jan 2) < dayNumber e \<longrightarrow> dayNumber e < dayNumber (jan 3) \<longrightarrow>
        inertOverride ?ts (?mc (formatDate e))"
      by (simp add: dayNumber_jan)
  qed (simp_all add: dayNumber_jan formatDate_jan)
  have "nat (int 2 + 1) mod length ?ts = 0" by simp
  with third have a: "assignedOn ?ts ?mc (jan 1) (jan 31) (jan 3) = Some (Some ''A'')"
    by simp
  have "\<exists>shifts. generateSchedule ?ts (2024, 1, 1) ?mc (jan 15) = Inr shifts \<and>
      \<lparr>date = formatDate (jan 3), teacherId = Some ''A''\<rparr> \<in> set shifts"
    by (rule output_entry)
      (simp_all add: getMonth_jan jan_in_month start lastDayOf_jan dayNumber_jan a)
  then have b: "\<exists>shifts. regenerateSchedule ?ts (2024, 1, 1) ?mc (jan 15) = Inr shifts \<and>
      \<lparr>date = ''2024-01-03'', teacherId = Some ''A''\<rparr> \<in> set shifts"
    by (simp add: regenerateSchedule_def formatDate_jan)
  have c: "assignedOn [\<lparr>id' = ''__EMPTY__'', name = ''Xuan''\<rparr>] [''2024-01-01'' \<mapsto> ''__EMPTY__'']
      (jan 1) (jan 31) (jan 1) = Some None"
    by (rule inert_day(1) [where mc = "[''2024-01-01'' \<mapsto> ''__EMPTY__'']"])
      (simp_all add: v dayNumber_jan formatDate_jan inertOverride_def)
  let ?ts3 = "[\<lparr>id' = ''Y'', name = ''Yen''\<rparr>, \<lparr>id' = '''', name = ''Xuan''\<rparr>]"
  let ?mc3 = "[''2024-01-01'' \<mapsto> '''']"
  from rotation_day [where ts = ?ts3 and mc = ?mc3 and start = "jan 1" and d = "jan 1"
      and lastDay = "jan 31"]
  have "\<exists>c. cursorBefore ?ts3 ?mc3 (jan 1) (jan 1) = Some c \<and> 0 \<le> c \<and>
     assignedOn ?ts3 ?mc3 (jan 1) (jan 31) (jan 1) = Some (Some (id' (?ts3 ! (nat c mod length ?ts3)))) \<and>
     cursorAfter ?ts3 ?mc3 (jan 1) (jan 1) = Some (c + 1)"
    by (simp add: v dayNumber_jan formatDate_jan)
  then have d: "assignedOn ?ts3 ?mc3 (jan 1) (jan 31) (jan 1) = Some (Some ''Y'')"
    by (auto simp: cursorBefore_start)
  from a b c d show ?thesis
    unfolding start lastDayOf_jan by (simp add: formatDate_jan)
qed

text \<open>
  Claim C4, as amended.  For a roster that is not empty and a date \<open>d\<close> on or after the
  start date whose override is the sentinel \<open>'__EMPTY__'\<close>, the generator assigns nobody to
  \<open>d\<close> and leaves the day with the very cursor \<open>c\<close> it arrived with.  The rotation goes
  on where it was, \<open>teachers[c mod n]\<close> being assigned to the next day without an
  override and the cursor advancing to \<open>c + 1\<close> there, provided that this day lies before
  the last day of the walk and that every day strictly between the two carries an override
  that assigns nobody (the sentinel or an id outside the roster); an override in between
  that names a teacher of the roster sets the cursor anew.  When \<open>d\<close> is a day of the
  visible month, the output lists it with no teacher.  (Of a teacher on the last day of
  the walk nothing is said here: whether the walk reaches that day depends on the time of
  day, see the section on time zones.)
\<close>

theorem sentinel_keeps_cursor:
  assumes "ts \<noteq> []"
    and "validDate d" "dayNumber (startDateOf sd) \<le> dayNumber d" "dayNumber d \<le> dayNumber lastDay"
    and "mc (formatDate d) = Some ''__EMPTY__''"
  shows "assignedOn ts mc (startDateOf sd) lastDay d = Some None \<and>
     (\<exists>c. cursorBefore ts mc (startDateOf sd) d = Some c \<and>
          cursorAfter ts mc (startDateOf sd) d = Some c \<and> 0 \<le> c \<and>
          (\<forall>d'. validDate d' \<and> dayNumber d < dayNumber d' \<and> dayNumber d' < dayNumber lastDay \<and>
                mc (formatDate d') = None \<and>
                (\<forall>e. validDate e \<and> dayNumber d < dayNumber e \<and> dayNumber e < dayNumber d' \<longrightarrow>
                   inertOverride ts (mc (formatDate e))) \<longrightarrow>
             assignedOn ts mc (startDateOf sd) lastDay d' =
               Some (Some (id' (ts ! (nat c mod length ts)))) \<and>
             cursorAfter ts mc (startDateOf sd) d' = Some (c + 1))) \<and>
     (0 \<le> getMonth cur \<and> getMonth cur < 12 \<and>
      d \<in> set (getDatesInMonth (getFullYear cur) (getMonth cur)) \<longrightarrow>
        (\<exists>shifts. regenerateSchedule ts sd mc cur = Inr shifts \<and>
           \<lparr>date = formatDate d, teacherId = None\<rparr> \<in> set shifts))"
proof -
  have inert: "inertOverride ts (mc (formatDate d))"
    using assms(5) by (simp add: inertOverride_def)
  have 1: "assignedOn ts mc (startDateOf sd) lastDay d = Some None"
    using assms(1) startDateOf_valid assms(2-4) inert by (rule inert_day(1) [where mc = mc])
  obtain c where c: "cursorBefore ts mc (startDateOf sd) d = Some c"
    "cursorAfter ts mc (startDateOf sd) d = Some c" "0 \<le> c"
    using inert_day(2) [where mc = mc, OF assms(1) startDateOf_valid assms(2-4) inert] by blast
  have next_day: "assignedOn ts mc (startDateOf sd) lastDay d' =
      Some (Some (id' (ts ! (nat c mod length ts)))) \<and>
      cursorAfter ts mc (startDateOf sd) d' = Some (c + 1)"
    if "validDate d'" "dayNumber d < dayNumber d'" "dayNumber d' < dayNumber lastDay"
      "mc (formatDate d') = None"
      "\<forall>e. validDate e \<and> dayNumber d < dayNumber e \<and> dayNumber e < dayNumber d' \<longrightarrow>
         inertOverride ts (mc (formatDate e))" for d'
  proof -
    have run: "\<forall>e. validDate e \<longrightarrow> dayNumber d < dayNumber e \<longrightarrow> dayNumber e < dayNumber d' \<longrightarrow>
        inertOverride ts (mc (formatDate e))"
      using that(5) by blast
    note nu = next_unoverridden [where mc = mc,
        OF assms(1) startDateOf_valid assms(2,3) c(2,3) that(1,2) less_imp_le [OF that(3)] that(4) run]
    from nu(1) nu(2) show ?thesis by (rule conjI)
  qed
  have 3: "\<exists>shifts. regenerateSchedule ts sd mc cur = Inr shifts \<and>
      \<lparr>date = formatDate d, teacherId = None\<rparr> \<in> set shifts"
    if m: "0 \<le> getMonth cur" "getMonth cur < 12"
      and mem: "d \<in> set (getDatesInMonth (getFullYear cur) (getMonth cur))"
  proof -
    have "dayNumber d \<le> dayNumber (lastDayOf cur)" using m mem by (rule monthDates_facts)
    with assms(1) startDateOf_valid assms(2,3)
    have "assignedOn ts mc (startDateOf sd) (lastDayOf cur) d = Some None"
      using inert by (rule inert_day(1) [where mc = mc])
    with assms(1) m mem assms(3)
    have "\<exists>shifts. generateSchedule ts sd mc cur = Inr shifts \<and>
        \<lparr>date = formatDate d, teacherId = None\<rparr> \<in> set shifts"
      by (rule output_entry)
    then show ?thesis using assms(1) by (simp add: regenerateSchedule_def)
  qed
  from 1 c next_day 3 show ?thesis by blast
qed

text \<open>
  The scenario of the claim: roster \<open>[A, B]\<close>, start date 2024-01-01, the sentinel stored
  for 2024-01-03.  January 1 is assigned \<open>A\<close> and January 2 \<open>B\<close>; the walk arrives at
  January 3 with cursor 2, assigns nobody and leaves with cursor 2; January 4 is assigned
  \<open>A\<close> and January 5 \<open>B\<close>.  The output for January 2024 lists the five days so.
\<close>

theorem sentinel_keeps_cursor_witness:
  "assignedOn [\<lparr>id' = ''A'', name = ''An''\<rparr>, \<lparr>id' = ''B'', name = ''Binh''\<rparr>]
      [''2024-01-03'' \<mapsto> ''__EMPTY__''] (startDateOf (2024, 1, 1)) (jan 31) (jan 1) = Some (Some ''A'') \<and>
   assignedOn [\<lparr>id' = ''A'', name = ''An''\<rparr>, \<lparr>id' = ''B'', name = ''Binh''\<rparr>]
      [''2024-01-03'' \<mapsto> ''__EMPTY__''] (startDateOf (2024, 1, 1)) (jan 31) (jan 2) = Some (Some ''B'') \<and>
   cursorBefore [\<lparr>id' = ''A'', name = ''An''\<rparr>, \<lparr>id' = ''B'', name = ''Binh''\<rparr>]
      [''2024-01-03'' \<mapsto> ''__EMPTY__''] (startDateOf (2024, 1, 1)) (jan 3) = Some 2 \<and>
   assignedOn [\<lparr>id' = ''A'', name = ''An''\<rparr>, \<lparr>id' = ''B'', name = ''Binh''\<rparr>]
      [''2024-01-03'' \<mapsto> ''__EMPTY__''] (startDateOf (2024, 1, 1)) (jan 31) (jan 3) = Some None \<and>
   cursorAfter [\<lparr>id' = ''A'', name = ''An''\<rparr>, \<lparr>id' = ''B'', name = ''Binh''\<rparr>]
      [''2024-01-03'' \<mapsto> ''__EMPTY__''] (startDateOf (2024, 1, 1)) (jan 3) = Some 2 \<and>
   assignedOn [\<lparr>id' = ''A'', name = ''An''\<rparr>, \<lparr>id' = ''B'', name = ''Binh''\<rparr>]
      [''2024-01-03'' \<mapsto> ''__EMPTY__''] (startDateOf (2024, 1, 1)) (jan 31) (jan 4) = Some (Some ''A'') \<and>
   cursorAfter [\<lparr>id' = ''A'', name = ''An''\<rparr>, \<lparr>id' = ''B'', name = ''Binh''\<rparr>]
      [''2024-01-03'' \<mapsto> ''__EMPTY__''] (startDateOf (2024, 1, 1)) (jan 4) = Some 3 \<and>
   assignedOn [\<lparr>id' = ''A'', name = ''An''\<rparr>, \<lparr>id' = ''B'', name = ''Binh''\<rparr>]
      [''2024-01-03'' \<mapsto> ''__EMPTY__''] (startDateOf (2024, 1, 1)) (jan 31) (jan 5) = Some (Some ''B'') \<and>
   (\<exists>shifts. regenerateSchedule [\<lparr>id' = ''A'', name = ''An''\<rparr>, \<lparr>id' = ''B'', name = ''Binh''\<rparr>]
      (2024, 1, 1) [''2024-01-03'' \<mapsto> ''__EMPTY__''] (jan 15) = Inr shifts \<and>
      \<lparr>date = ''2024-01-01'', teacherId = Some ''A''\<rparr> \<in> set shifts \<and>
      \<lparr>date = ''2024-01-02'', teacherId = Some ''B''\<rparr> \<in> set shifts \<and>
      \<lparr>date = ''2024-01-03'', teacherId = None\<rparr> \<in> set shifts \<and>
      \<lparr>date = ''2024-01-04'', teacherId = Some ''A''\<rparr> \<in> set shifts \<and>
      \<lparr>date = ''2024-01-05'', teacherId = Some ''B''\<rparr> \<in> set shifts)"
proof -
  let ?ts = "[\<lparr>id' = ''A'', name = ''An''\<rparr>, \<lparr>id' = ''B'', name = ''Binh''\<rparr>]"
  let ?mc = "[''2024-01-03'' \<mapsto> ''__EMPTY__'']"
  have s: "startDateOf (2024, 1, 1) = jan 1" by (simp add: startDateOf_jan)
  have v: "validDate (jan 1)" "validDate (jan 2)" "validDate (jan 3)" "validDate (jan 4)"
    "validDate (jan 5)"
    by (simp_all add: validDate_jan)
  have ts: "?ts \<noteq> []" by simp
  have ov: "?mc (formatDate (jan 3)) = Some ''__EMPTY__''"
    by (simp add: formatDate_jan)
  have free: "?mc (formatDate (jan 1)) = None" "?mc (formatDate (jan 2)) = None"
    "?mc (formatDate (jan 4)) = None" "?mc (formatDate (jan 5)) = None"
    by (simp_all add: formatDate_jan)
  have earlier: "?mc (formatDate e) = None"
    if "validDate e" "dayNumber e < dayNumber (jan 3)" for e
  proof -
    have "formatDate e \<noteq> formatDate (jan 3)"
      using formatDate_inj [OF that(1) v(3)] that(2) by auto
    then show ?thesis by (simp add: formatDate_jan)
  qed
  have cb: "cursorBefore ?ts ?mc (jan 1) (jan k) = Some (k - 1)" if "1 \<le> k" "k \<le> 3" for k
  proof -
    have "cursorBefore ?ts ?mc (jan 1) (jan k) = Some (dayNumber (jan k) - dayNumber (jan 1))"
      using that earlier
      by (intro cursor_rotation_stretch [where mc = ?mc]) (simp_all add: validDate_jan dayNumber_jan)
    then show ?thesis by (simp add: dayNumber_jan)
  qed
  have rot: "assignedOn ?ts ?mc (jan 1) (jan 31) (jan k) = Some (Some (id' (?ts ! (nat c mod length ?ts))))"
    if "1 \<le> k" "k \<le> 31" "?mc (formatDate (jan k)) = None" "cursorBefore ?ts ?mc (jan 1) (jan k) = Some c"
    for k c
    using rotation_day [where ts = ?ts and mc = ?mc and start = "jan 1" and d = "jan k"
        and lastDay = "jan 31"] that
    by (auto simp: validDate_jan dayNumber_jan)
  have m2: "(2::nat) mod Suc (Suc 0) = 0" "(3::nat) mod Suc (Suc 0) = 1" "(1::nat) mod Suc (Suc 0) = 1"
    by code_simp+
  have a1: "assignedOn ?ts ?mc (jan 1) (jan 31) (jan 1) = Some (Some ''A'')"
    using rot [of 1 0] free(1) cb [of 1] by simp
  have a2: "assignedOn ?ts ?mc (jan 1) (jan 31) (jan 2) = Some (Some ''B'')"
    using rot [of 2 1] free(2) cb [of 2] by (simp add: m2)
  have before: "cursorBefore ?ts ?mc (jan 1) (jan 3) = Some 2"
    using cb [of 3] by simp
  note th = sentinel_keeps_cursor [where ts = ?ts and d = "jan 3" and sd = "(2024, 1, 1)"
      and lastDay = "jan 31" and mc = ?mc and cur = "jan 15", unfolded s, OF ts v(3) _ _ ov]
  have le: "dayNumber (jan 1) \<le> dayNumber (jan 3)" "dayNumber (jan 3) \<le> dayNumber (jan 31)"
    by (simp_all add: dayNumber_jan)
  have a3: "assignedOn ?ts ?mc (jan 1) (jan 31) (jan 3) = Some None"
    using th [OF le] by simp
  from th [OF le] before
  have after: "cursorAfter ?ts ?mc (jan 1) (jan 3) = Some 2"
    and nxt: "\<forall>d'. validDate d' \<and> dayNumber (jan 3) < dayNumber d' \<and> dayNumber d' < dayNumber (jan 31) \<and>
                ?mc (formatDate d') = None \<and>
                (\<forall>e. validDate e \<and> dayNumber (jan 3) < dayNumber e \<and> dayNumber e < dayNumber d' \<longrightarrow>
                   inertOverride ?ts (?mc (formatDate e))) \<longrightarrow>
             assignedOn ?ts ?mc (jan 1) (jan 31) d' = Some (Some (id' (?ts ! (nat 2 mod length ?ts)))) \<and>
             cursorAfter ?ts ?mc (jan 1) d' = Some (2 + 1)"
    by auto
  have "assignedOn ?ts ?mc (jan 1) (jan 31) (jan 4) = Some (Some (id' (?ts ! (nat 2 mod length ?ts)))) \<and>
      cursorAfter ?ts ?mc (jan 1) (jan 4) = Some (2 + 1)"
  proof (rule nxt [rule_format], intro conjI allI impI)
    fix e
    assume "validDate e \<and> dayNumber (jan 3) < dayNumber e \<and> dayNumber e < dayNumber (jan 4)"
    then have False by (auto simp: dayNumber_jan)
    then show "inertOverride ?ts (?mc (formatDate e))" ..
  qed (simp_all add: v dayNumber_jan formatDate_jan)
  then have a4: "assignedOn ?ts ?mc (jan 1) (jan 31) (jan 4) = Some (Some ''A'')"
    and c4: "cursorAfter ?ts ?mc (jan 1) (jan 4) = Some 3"
    by (simp_all add: m2)
  have "cursorBefore ?ts ?mc (jan 1) (jan 5) = Some 3"
    using cursorBefore_next [of "jan 5" "jan 4" ?ts ?mc "jan 1"] c4 by (simp add: dayNumber_jan)
  then have a5: "assignedOn ?ts ?mc (jan 1) (jan 31) (jan 5) = Some (Some ''B'')"
    using rot [of 5 3] free(4) by (simp add: m2)
  obtain shifts where sh: "regenerateSchedule ?ts (2024, 1, 1) ?mc (jan 15) = Inr shifts"
    and e3: "\<lparr>date = ''2024-01-03'', teacherId = None\<rparr> \<in> set shifts"
    using th [OF le, THEN conjunct2, THEN conjunct2] jan_in_month [of 3 15] getMonth_jan [of 15]
    by (auto simp: formatDate_jan)
  have entry: "\<lparr>date = formatDate (jan k), teacherId = a\<rparr> \<in> set shifts"
    if "1 \<le> k" "k \<le> 31" "assignedOn ?ts ?mc (jan 1) (jan 31) (jan k) = Some a" for k a
  proof -
    have "\<exists>shifts. generateSchedule ?ts (2024, 1, 1) ?mc (jan 15) = Inr shifts \<and>
        \<lparr>date = formatDate (jan k), teacherId = a\<rparr> \<in> set shifts"
      using that
      by (intro output_entry) (simp_all add: getMonth_jan jan_in_month s lastDayOf_jan dayNumber_jan)
    with sh show ?thesis by (auto simp: regenerateSchedule_def)
  qed
  have out: "\<exists>shifts. regenerateSchedule ?ts (2024, 1, 1) ?mc (jan 15) = Inr shifts \<and>
      \<lparr>date = ''2024-01-01'', teacherId = Some ''A''\<rparr> \<in> set shifts \<and>
      \<lparr>date = ''2024-01-02'', teacherId = Some ''B''\<rparr> \<in> set shifts \<and>
      \<lparr>date = ''2024-01-03'', teacherId = None\<rparr> \<in> set shifts \<and>
      \<lparr>date = ''2024-01-04'', teacherId = Some ''A''\<rparr> \<in> set shifts \<and>
      \<lparr>date = ''2024-01-05'', teacherId = Some ''B''\<rparr> \<in> set shifts"
    using sh e3 entry [OF _ _ a1] entry [OF _ _ a2] entry [OF _ _ a4] entry [OF _ _ a5]
    by (simp add: formatDate_jan)
  from a1 a2 before a3 after a4 c4 a5 out show ?thesis unfolding s by (intro conjI)
qed

text \<open>
  The claim as it was stated takes no account of what lies between the sentinel day and
  the next day without an override.  With roster \<open>[A, B, C]\<close>, start date 2024-01-01, the
  sentinel stored for January 2 and \<open>C\<close> picked for January 3, the walk arrives at
  January 2 with cursor 1 and leaves it with cursor 1, so that where the rotation left
  off it is the turn of \<open>B\<close>; but the next day without an override, January 4, is assigned
  \<open>A\<close>, the teacher after \<open>C\<close>.
\<close>

theorem sentinel_keeps_cursor_counterexample:
  "[''2024-01-02'' \<mapsto> ''__EMPTY__'', ''2024-01-03'' \<mapsto> ''C''] (formatDate (jan 2)) = Some ''__EMPTY__'' \<and>
   [''2024-01-02'' \<mapsto> ''__EMPTY__'', ''2024-01-03'' \<mapsto> ''C''] (formatDate (jan 3)) = Some ''C'' \<and>
   [''2024-01-02'' \<mapsto> ''__EMPTY__'', ''2024-01-03'' \<mapsto> ''C''] (formatDate (jan 4)) = None \<and>
   cursorBefore [\<lparr>id' = ''A'', name = ''An''\<rparr>, \<lparr>id' = ''B'', name = ''Binh''\<rparr>, \<lparr>id' = ''C'', name = ''Chi''\<rparr>]
      [''2024-01-02'' \<mapsto> ''__EMPTY__'', ''2024-01-03'' \<mapsto> ''C'']
      (startDateOf (2024, 1, 1)) (jan 2) = Some 1 \<and>
   cursorAfter [\<lparr>id' = ''A'', name = ''An''\<rparr>, \<lparr>id' = ''B'', name = ''Binh''\<rparr>, \<lparr>id' = ''C'', name = ''Chi''\<rparr>]
      [''2024-01-02'' \<mapsto> ''__EMPTY__'', ''2024-01-03'' \<mapsto> ''C'']
      (startDateOf (2024, 1, 1)) (jan 2) = Some 1 \<and>
   id' ([\<lparr>id' = ''A'', name = ''An''\<rparr>, \<lparr>id' = ''B'', name = ''Binh''\<rparr>, \<lparr>id' = ''C'', name = ''Chi''\<rparr>]
         ! (1 mod 3)) = ''B'' \<and>
   assignedOn [\<lparr>id' = ''A'', name = ''An''\<rparr>, \<lparr>id' = ''B'', name = ''Binh''\<rparr>, \<lparr>id' = ''C'', name = ''Chi''\<rparr>]
      [''2024-01-02'' \<mapsto> ''__EMPTY__'', ''2024-01-03'' \<mapsto> ''C'']
      (startDateOf (2024, 1, 1)) (lastDayOf (jan 15)) (jan 4) = Some (Some ''A'') \<and>
   (\<exists>shifts. regenerateSchedule
        [\<lparr>id' = ''A'', name = ''An''\<rparr>, \<lparr>id' = ''B'', name = ''Binh''\<rparr>, \<lparr>id' = ''C'', name = ''Chi''\<rparr>]
        (2024, 1, 1) [''2024-01-02'' \<mapsto> ''__EMPTY__'', ''2024-01-03'' \<mapsto> ''C''] (jan 15)
          = Inr shifts \<and>
      \<lparr>date = ''2024-01-04'', teacherId = Some ''A''\<rparr> \<in> set shifts)"
proof -
  let ?ts = "[\<lparr>id' = ''A'', name = ''An''\<rparr>, \<lparr>id' = ''B'', name = ''Binh''\<rparr>, \<lparr>id' = ''C'', name = ''Chi''\<rparr>]"
  let ?mc = "[''2024-01-02'' \<mapsto> ''__EMPTY__'', ''2024-01-03'' \<mapsto> ''C'']"
  have start: "startDateOf (2024, 1, 1) = jan 1" by (simp add: startDateOf_jan)
  have v: "validDate (jan 1)" "validDate (jan 2)" "validDate (jan 3)" "validDate (jan 4)"
    by (simp_all add: validDate_jan)
  have "cursorBefore ?ts ?mc (jan 1) (jan 2) = Some (dayNumber (jan 2) - dayNumber (jan 1))"
  proof (rule cursor_rotation_stretch [where mc = ?mc, OF _ v(1,2)], simp, simp add: dayNumber_jan,
      intro allI impI)
    fix e
    assume e: "validDate e" "dayNumber (jan 1) \<le> dayNumber e" "dayNumber e < dayNumber (jan 2)"
    then have "dayNumber e = dayNumber (jan 1)" by (simp add: dayNumber_jan)
    with e(1) have "e = jan 1" by (intro jan_between) simp_all
    then show "?mc (formatDate e) = None" by (simp add: formatDate_jan)
  qed
  then have before: "cursorBefore ?ts ?mc (jan 1) (jan 2) = Some 1"
    by (simp add: dayNumber_jan)
  from inert_day(2) [where ts = ?ts and mc = ?mc and start = "jan 1" and d = "jan 2"
      and lastDay = "jan 2"] before
  have after: "cursorAfter ?ts ?mc (jan 1) (jan 2) = Some 1"
    by (auto simp: v dayNumber_jan formatDate_jan inertOverride_def)
  have after3: "cursorAfter ?ts ?mc (jan 1) (jan 3) = Some (int 2 + 1)"
    by (rule pick_day(2) [where mc = ?mc and T = "''C''" and lastDay = "jan 3"])
      (simp_all add: v dayNumber_jan formatDate_jan)
  have fourth: "assignedOn ?ts ?mc (jan 1) (jan 31) (jan 4) =
      Some (Some (id' (?ts ! (nat (int 2 + 1) mod length ?ts))))"
  proof (rule next_unoverridden(1) [where mc = ?mc and d = "jan 3", OF _ v(1,3) _ after3 _ v(4)])
    show "\<forall>e. validDate e \<longrightarrow> dayNumber (jan 3) < dayNumber e \<longrightarrow> dayNumber e < dayNumber (jan 4) \<longrightarrow>
        inertOverride ?ts (?mc (formatDate e))"
      by (simp add: dayNumber_jan)
  qed (simp_all add: dayNumber_jan formatDate_jan)
  have "nat (int 2 + 1) mod length ?ts = 0" by simp
  with fourth have a: "assignedOn ?ts ?mc (jan 1) (jan 31) (jan 4) = Some (Some ''A'')"
    by simp
  have "\<exists>shifts. generateSchedule ?ts (2024, 1, 1) ?mc (jan 15) = Inr shifts \<and>
      \<lparr>date = formatDate (jan 4), teacherId = Some ''A''\<rparr> \<in> set shifts"
    by (rule output_entry)
      (simp_all add: getMonth_jan jan_in_month start lastDayOf_jan dayNumber_jan a)
  then have b: "\<exists>shifts. regenerateSchedule ?ts (2024, 1, 1) ?mc (jan 15) = Inr shifts \<and>
      \<lparr>date = ''2024-01-04'', teacherId = Some ''A''\<rparr> \<in> set shifts"
    by (simp add: regenerateSchedule_def formatDate_jan)
  from before after a b show ?thesis
    unfolding start lastDayOf_jan by (simp add: formatDate_jan)
qed

text \<open>
  Claim C5.  For a roster that is not empty and a date \<open>d\<close> on or after the start date
  whose override is a non-empty id \<open>v\<close> that no teacher of the roster has, the generator
  assigns nobody to \<open>d\<close> and leaves the day with the cursor it arrived with.  Nothing the
  generator computes tells such an override from the sentinel: the walk from any state and
  the whole output are the same as with the sentinel stored for \<open>d\<close>, in particular the
  assignments of all later days.  When \<open>d\<close> is a day of the visible month, the output
  lists it with no teacher.
\<close>

theorem stale_override_is_inert:
  assumes "ts \<noteq> []" "v \<noteq> []" "v \<notin> id' ` set ts"
    and "validDate d" "dayNumber (startDateOf sd) \<le> dayNumber d" "dayNumber d \<le> dayNumber lastDay"
    and "mc (formatDate d) = Some v"
  shows "assignedOn ts mc (startDateOf sd) lastDay d = Some None \<and>
     (\<exists>c. cursorBefore ts mc (startDateOf sd) d = Some c \<and>
          cursorAfter ts mc (startDateOf sd) d = Some c) \<and>
     walk ts (teacherIndexMap ts) mc lastDay ptr c0 S =
       walk ts (teacherIndexMap ts) (mc(formatDate d \<mapsto> ''__EMPTY__'')) lastDay ptr c0 S \<and>
     regenerateSchedule ts sd mc cur =
       regenerateSchedule ts sd (mc(formatDate d \<mapsto> ''__EMPTY__'')) cur \<and>
     (0 \<le> getMonth cur \<and> getMonth cur < 12 \<and>
      d \<in> set (getDatesInMonth (getFullYear cur) (getMonth cur)) \<longrightarrow>
        (\<exists>shifts. regenerateSchedule ts sd mc cur = Inr shifts \<and>
           \<lparr>date = formatDate d, teacherId = None\<rparr> \<in> set shifts))"
proof -
  have inert: "inertOverride ts (mc (formatDate d))"
    using assms(2,3,7) by (simp add: inertOverride_def)
  have same: "assignDay ts (teacherIndexMap ts) (mc k) c =
      assignDay ts (teacherIndexMap ts) ((mc(formatDate d \<mapsto> ''__EMPTY__'')) k) c" for k c
  proof (cases "k = formatDate d")
    case True
    then show ?thesis
      using inert assms(7) by (simp add: assignDay_inert assignDay_sentinel)
  next
    case False
    then show ?thesis by simp
  qed
  have 1: "assignedOn ts mc (startDateOf sd) lastDay d = Some None"
    using assms(1) startDateOf_valid assms(4-6) inert by (rule inert_day(1) [where mc = mc])
  have 2: "\<exists>c. cursorBefore ts mc (startDateOf sd) d = Some c \<and>
      cursorAfter ts mc (startDateOf sd) d = Some c"
    using inert_day(2) [where mc = mc, OF assms(1) startDateOf_valid assms(4-6) inert] by blast
  have 3: "walk ts (teacherIndexMap ts) mc lastDay ptr c0 S =
      walk ts (teacherIndexMap ts) (mc(formatDate d \<mapsto> ''__EMPTY__'')) lastDay ptr c0 S"
    using same by (rule walk_override_cong)
  have 4: "regenerateSchedule ts sd mc cur =
      regenerateSchedule ts sd (mc(formatDate d \<mapsto> ''__EMPTY__'')) cur"
    unfolding regenerateSchedule_def
    using generateSchedule_override_cong [of ts mc "mc(formatDate d \<mapsto> ''__EMPTY__'')", OF same]
    by simp
  have 5: "\<exists>shifts. regenerateSchedule ts sd mc cur = Inr shifts \<and>
      \<lparr>date = formatDate d, teacherId = None\<rparr> \<in> set shifts"
    if m: "0 \<le> getMonth cur" "getMonth cur < 12"
      and mem: "d \<in> set (getDatesInMonth (getFullYear cur) (getMonth cur))"
  proof -
    have "dayNumber d \<le> dayNumber (lastDayOf cur)" using m mem by (rule monthDates_facts)
    with assms(1) startDateOf_valid assms(4,5)
    have "assignedOn ts mc (startDateOf sd) (lastDayOf cur) d = Some None"
      using inert by (rule inert_day(1) [where mc = mc])
    with assms(1) m mem assms(5)
    have "\<exists>shifts. generateSchedule ts sd mc cur = Inr shifts \<and>
        \<lparr>date = formatDate d, teacherId = None\<rparr> \<in> set shifts"
      by (rule output_entry)
    then show ?thesis using assms(1) by (simp add: regenerateSchedule_def)
  qed
  from 1 2 3 4 5 show ?thesis by blast
qed

theorem stale_override_is_inert_witness:
  "assignedOn [\<lparr>id' = ''A'', name = ''An''\<rparr>, \<lparr>id' = ''B'', name = ''Binh''\<rparr>]
      [''2024-01-03'' \<mapsto> ''Z''] (startDateOf (2024, 1, 1))
      \<lparr>getFullYear = 2024, getMonth = 0, getDate = 31\<rparr>
      \<lparr>getFullYear = 2024, getMonth = 0, getDate = 3\<rparr> = Some None \<and>
   regenerateSchedule [\<lparr>id' = ''A'', name = ''An''\<rparr>, \<lparr>id' = ''B'', name = ''Binh''\<rparr>]
      (2024, 1, 1) [''2024-01-03'' \<mapsto> ''Z''] \<lparr>getFullYear = 2024, getMonth = 0, getDate = 15\<rparr> =
   regenerateSchedule [\<lparr>id' = ''A'', name = ''An''\<rparr>, \<lparr>id' = ''B'', name = ''Binh''\<rparr>]
      (2024, 1, 1) [''2024-01-03'' \<mapsto> ''__EMPTY__''] \<lparr>getFullYear = 2024, getMonth = 0, getDate = 15\<rparr> \<and>
   (\<exists>shifts. regenerateSchedule [\<lparr>id' = ''A'', name = ''An''\<rparr>, \<lparr>id' = ''B'', name = ''Binh''\<rparr>]
      (2024, 1, 1) [''2024-01-03'' \<mapsto> ''Z''] \<lparr>getFullYear = 2024, getMonth = 0, getDate = 15\<rparr>
        = Inr shifts \<and> \<lparr>date = ''2024-01-03'', teacherId = None\<rparr> \<in> set shifts)"
proof -
  let ?ts = "[\<lparr>id' = ''A'', name = ''An''\<rparr>, \<lparr>id' = ''B'', name = ''Binh''\<rparr>]"
  let ?cur = "\<lparr>getFullYear = 2024, getMonth = 0, getDate = 15\<rparr>"
  let ?d = "\<lparr>getFullYear = 2024, getMonth = 0, getDate = 3\<rparr>"
  let ?l = "\<lparr>getFullYear = 2024, getMonth = 0, getDate = 31\<rparr>"
  have f: "formatDate ?d = ''2024-01-03''" by code_simp
  have s: "startDateOf (2024, 1, 1) = \<lparr>getFullYear = 2024, getMonth = 0, getDate = 1\<rparr>"
    by (simp add: startDateOf_def new_Date_in_range fullYear_def DaysInMonth_def)
  have v: "validDate ?d" by (simp add: validDate_def DaysInMonth_def)
  have le: "dayNumber (startDateOf (2024, 1, 1)) \<le> dayNumber ?d" "dayNumber ?d \<le> dayNumber ?l"
    unfolding s by (simp_all add: dayNumber_def MakeDay_def)
  have mem: "?d \<in> set (getDatesInMonth (getFullYear ?cur) (getMonth ?cur))"
    using getDatesInMonth_days [of 0 2024] by (simp add: fullYear_def DaysInMonth_def image_iff)
  have ov: "[''2024-01-03'' \<mapsto> ''Z''] (formatDate ?d) = Some ''Z''"
    unfolding f by simp
  note th = stale_override_is_inert [where ts = ?ts and v = "''Z''" and d = ?d and sd = "(2024, 1, 1)"
      and lastDay = ?l and mc = "[''2024-01-03'' \<mapsto> ''Z'']" and cur = ?cur
      and ptr = ?d and ?c0.0 = 0 and S = Map.empty, OF _ _ _ v le ov]
  have a: "assignedOn ?ts [''2024-01-03'' \<mapsto> ''Z''] (startDateOf (2024, 1, 1)) ?l ?d = Some None"
    using th by simp
  have b: "regenerateSchedule ?ts (2024, 1, 1) [''2024-01-03'' \<mapsto> ''Z''] ?cur =
      regenerateSchedule ?ts (2024, 1, 1) [''2024-01-03'' \<mapsto> ''__EMPTY__''] ?cur"
    using th unfolding f by simp
  have c: "\<exists>shifts. regenerateSchedule ?ts (2024, 1, 1) [''2024-01-03'' \<mapsto> ''Z''] ?cur = Inr shifts \<and>
      \<lparr>date = ''2024-01-03'', teacherId = None\<rparr> \<in> set shifts"
    using th [THEN conjunct2, THEN conjunct2, THEN conjunct2, THEN conjunct2] mem
    unfolding f by simp
  from a b c show ?thesis by (intro conjI)
qed

text \<open>
  Claim C6.  For every roster, start date and override map the effect produces a list with
  one entry for each date of the visible month, and every entry whose date lies strictly
  before the start date (their day numbers compared) has no teacher, whatever the override
  map holds for that date.  When the start date lies after the last day of the visible
  month, no entry has a teacher.
\<close>

theorem before_start_null:
  "\<exists>shifts. regenerateSchedule ts sd mc cur = Inr shifts \<and>
     map date shifts = map formatDate (getDatesInMonth (getFullYear cur) (getMonth cur)) \<and>
     (\<forall>i < length shifts.
        dayNumber (getDatesInMonth (getFullYear cur) (getMonth cur) ! i) < dayNumber (startDateOf sd)
          \<longrightarrow> teacherId (shifts ! i) = None) \<and>
     (dayNumber (lastDayOf cur) < dayNumber (startDateOf sd) \<longrightarrow>
        (\<forall>e \<in> set shifts. teacherId e = None))"
proof (cases "ts = []")
  case True
  then show ?thesis by (simp add: regenerateSchedule_def comp_def)
next
  case False
  then have "regenerateSchedule ts sd mc cur = generateSchedule ts sd mc cur"
    by (simp add: regenerateSchedule_def)
  then show ?thesis
    unfolding generateSchedule_output [OF False] by (auto simp: comp_def)
qed

theorem before_start_null_witness:
  "(\<exists>shifts. regenerateSchedule [\<lparr>id' = ''A'', name = ''An''\<rparr>] (2024, 1, 20)
        [''2024-01-05'' \<mapsto> ''A''] \<lparr>getFullYear = 2024, getMonth = 0, getDate = 15\<rparr> = Inr shifts \<and>
      length shifts = 31 \<and> teacherId (shifts ! 4) = None) \<and>
   (\<exists>shifts. regenerateSchedule [\<lparr>id' = ''A'', name = ''An''\<rparr>] (2024, 2, 1)
        [''2024-01-05'' \<mapsto> ''A''] \<lparr>getFullYear = 2024, getMonth = 0, getDate = 15\<rparr> = Inr shifts \<and>
      length shifts = 31 \<and> list_all (\<lambda>e. teacherId e = None) shifts)"
proof -
  let ?cur = "\<lparr>getFullYear = 2024, getMonth = 0, getDate = 15\<rparr>"
  have month: "getDatesInMonth (getFullYear ?cur) (getMonth ?cur) =
      map (\<lambda>k. \<lparr>getFullYear = 2024, getMonth = 0, getDate = k\<rparr>) [1..31]"
    using getDatesInMonth_days [of 0 2024] by (simp add: fullYear_def DaysInMonth_def)
  have len: "length (getDatesInMonth (getFullYear ?cur) (getMonth ?cur)) = 31"
    unfolding month by simp
  have fifth: "getDatesInMonth (getFullYear ?cur) (getMonth ?cur) ! 4 =
      \<lparr>getFullYear = 2024, getMonth = 0, getDate = 5\<rparr>"
    unfolding month by (simp add: nth_upto)
  have s1: "startDateOf (2024, 1, 20) = \<lparr>getFullYear = 2024, getMonth = 0, getDate = 20\<rparr>"
    by (simp add: startDateOf_def new_Date_in_range fullYear_def DaysInMonth_def)
  have s2: "startDateOf (2024, 2, 1) = \<lparr>getFullYear = 2024, getMonth = 1, getDate = 1\<rparr>"
    by (simp add: startDateOf_def new_Date_in_range fullYear_def DaysInMonth_def)
  have l: "lastDayOf ?cur = \<lparr>getFullYear = 2024, getMonth = 0, getDate = 31\<rparr>"
    using new_Date_last [of 0 2024] by (simp add: lastDayOf_def fullYear_def DaysInMonth_def)
  have before: "dayNumber (getDatesInMonth (getFullYear ?cur) (getMonth ?cur) ! 4)
      < dayNumber (startDateOf (2024, 1, 20))"
    unfolding fifth s1 by (simp add: dayNumber_def MakeDay_def)
  have after: "dayNumber (lastDayOf ?cur) < dayNumber (startDateOf (2024, 2, 1))"
    unfolding l s2 by (simp add: dayNumber_def MakeDay_def DaysBeforeMonth_def)
  from before_start_null [of "[\<lparr>id' = ''A'', name = ''An''\<rparr>]" "(2024, 1, 20)"
      "[''2024-01-05'' \<mapsto> ''A'']" ?cur]
  obtain shifts where a: "regenerateSchedule [\<lparr>id' = ''A'', name = ''An''\<rparr>] (2024, 1, 20)
        [''2024-01-05'' \<mapsto> ''A''] ?cur = Inr shifts"
    and b: "map date shifts = map formatDate (getDatesInMonth (getFullYear ?cur) (getMonth ?cur))"
    and c: "\<forall>i < length shifts.
        dayNumber (getDatesInMonth (getFullYear ?cur) (getMonth ?cur) ! i)
          < dayNumber (startDateOf (2024, 1, 20)) \<longrightarrow> teacherId (shifts ! i) = None"
    by blast
  from b have la: "length shifts = 31" using len by (metis length_map)
  with c before have "teacherId (shifts ! 4) = None" by simp
  with a la have first: "\<exists>shifts. regenerateSchedule [\<lparr>id' = ''A'', name = ''An''\<rparr>] (2024, 1, 20)
        [''2024-01-05'' \<mapsto> ''A''] ?cur = Inr shifts \<and>
      length shifts = 31 \<and> teacherId (shifts ! 4) = None"
    by blast
  from before_start_null [of "[\<lparr>id' = ''A'', name = ''An''\<rparr>]" "(2024, 2, 1)"
      "[''2024-01-05'' \<mapsto> ''A'']" ?cur] after
  obtain shifts' where a': "regenerateSchedule [\<lparr>id' = ''A'', name = ''An''\<rparr>] (2024, 2, 1)
        [''2024-01-05'' \<mapsto> ''A''] ?cur = Inr shifts'"
    and b': "map date shifts' = map formatDate (getDatesInMonth (getFullYear ?cur) (getMonth ?cur))"
    and c': "\<forall>e \<in> set shifts'. teacherId e = None"
    by blast
  from b' have "length shifts' = 31" using len by (metis length_map)
  with a' c' have second: "\<exists>shifts. regenerateSchedule [\<lparr>id' = ''A'', name = ''An''\<rparr>] (2024, 2, 1)
        [''2024-01-05'' \<mapsto> ''A''] ?cur = Inr shifts \<and>
      length shifts = 31 \<and> list_all (\<lambda>e. teacherId e = None) shifts"
    by (auto simp: list_all_iff)
  from first second show ?thesis by blast
qed

text \<open>
  Claim C7.  With an empty roster, whatever the start date and the override map, the
  output has exactly one entry for each calendar day of the visible month, in order, and
  every entry has no teacher.  The days are those of the month in which
  \<open>new Date(year, month, 1)\<close> falls, \<open>year\<close> and \<open>month\<close> read from \<open>currentDate\<close>.
\<close>

theorem empty_roster_all_null:
  assumes "0 \<le> getMonth cur" "getMonth cur < 12"
  shows "regenerateSchedule [] start mc cur =
     Inr (map (\<lambda>k. \<lparr>date = formatDate \<lparr>getFullYear = fullYear (getFullYear cur),
                                       getMonth = getMonth cur, getDate = k\<rparr>,
                      teacherId = None\<rparr>)
            [1..DaysInMonth (fullYear (getFullYear cur)) (getMonth cur)])"
  by (simp add: regenerateSchedule_def getDatesInMonth_days [OF assms] comp_def)

theorem empty_roster_all_null_witness:
  "regenerateSchedule [] (2024, 1, 1) [''2024-02-03'' \<mapsto> ''7'']
      \<lparr>getFullYear = 2024, getMonth = 1, getDate = 15\<rparr> =
     Inr (map (\<lambda>k. \<lparr>date = formatDate \<lparr>getFullYear = 2024, getMonth = 1, getDate = k\<rparr>,
                      teacherId = None\<rparr>) [1..29])"
  using empty_roster_all_null [of "\<lparr>getFullYear = 2024, getMonth = 1, getDate = 15\<rparr>"
      "(2024, 1, 1)" "[''2024-02-03'' \<mapsto> ''7'']"]
  by (simp add: fullYear_def DaysInMonth_def InLeapYear_def)

text \<open>
  Claim C8.  For a roster that is not empty, the rotation cursor is never negative during
  the walk: it is 0 at the start date, and from a cursor that is not negative every day
  leaves a cursor that is not negative (the cursor plus one, the cursor itself, or an
  index of the roster plus one).  With such a cursor the remainder by the roster length is
  a position of the roster, so that the read \<open>teachers[cursor % length]\<close> yields a
  teacher, a day never fails, the walk ends without an error and the generator returns a
  list.
\<close>

theorem cursor_never_negative:
  assumes "ts \<noteq> []" "0 \<le> c"
  shows "(\<exists>k. js_rem c (int (length ts)) = Some k \<and> 0 \<le> k \<and> k < int (length ts)) \<and>
     teacherIdAt ts (js_rem c (int (length ts))) = Inr (id' (ts ! (nat c mod length ts))) \<and>
     (\<exists>a c'. assignDay ts im ov c = Inr (a, c') \<and> 0 \<le> c') \<and>
     (\<exists>c' S'. walk ts im mc lastDay ptr c S = Inr (c', S') \<and> 0 \<le> c') \<and>
     cursorBefore ts mc (startDateOf sd) (startDateOf sd) = Some 0 \<and>
     (validDate d \<and> dayNumber (startDateOf sd) \<le> dayNumber d \<longrightarrow>
        (\<exists>b. cursorBefore ts mc (startDateOf sd) d = Some b \<and> 0 \<le> b) \<and>
        (\<exists>b. cursorAfter ts mc (startDateOf sd) d = Some b \<and> 0 \<le> b)) \<and>
     (\<exists>shifts. generateSchedule ts sd mc cur = Inr shifts)"
proof -
  have n: "0 < int (length ts)" using assms(1) by simp
  have "js_rem c (int (length ts)) = Some (c mod int (length ts))"
    using assms(2) n by (rule js_rem_nonneg)
  moreover have "0 \<le> c mod int (length ts)" "c mod int (length ts) < int (length ts)"
    using n by simp_all
  ultimately have 1: "\<exists>k. js_rem c (int (length ts)) = Some k \<and> 0 \<le> k \<and> k < int (length ts)"
    by simp
  have 2: "teacherIdAt ts (js_rem c (int (length ts))) = Inr (id' (ts ! (nat c mod length ts)))"
    using teacherIdAt_rotation [OF assms] by (simp add: rotationTeacher_def)
  have 3: "\<exists>a c'. assignDay ts im ov c = Inr (a, c') \<and> 0 \<le> c'"
    using assms by (rule assignDay_total)
  have 4: "\<exists>c' S'. walk ts im mc lastDay ptr c S = Inr (c', S') \<and> 0 \<le> c'"
    using assms by (rule walk_total)
  have 5: "(\<exists>b. cursorBefore ts mc (startDateOf sd) d = Some b \<and> 0 \<le> b) \<and>
      (\<exists>b. cursorAfter ts mc (startDateOf sd) d = Some b \<and> 0 \<le> b)"
    if "validDate d" "dayNumber (startDateOf sd) \<le> dayNumber d"
  proof -
    from day_semantics [OF assms(1) startDateOf_valid that order_refl, of mc]
    obtain b a b' where b: "cursorBefore ts mc (startDateOf sd) d = Some b" "0 \<le> b"
      "assignDay ts (teacherIndexMap ts) (mc (formatDate d)) b = Inr (a, b')"
      "cursorAfter ts mc (startDateOf sd) d = Some b'"
      by blast
    from assignDay_total [OF assms(1) b(2), of "teacherIndexMap ts" "mc (formatDate d)"] b(3)
    have "0 \<le> b'" by simp
    with b show ?thesis by simp
  qed
  have 6: "\<exists>shifts. generateSchedule ts sd mc cur = Inr shifts"
    using generateSchedule_output [OF assms(1)] by blast
  from 1 2 3 4 5 6 show ?thesis by (simp add: cursorBefore_start)
qed

theorem cursor_never_negative_witness:
  "(\<exists>k. js_rem 5 (int (length [\<lparr>id' = ''A'', name = ''An''\<rparr>, \<lparr>id' = ''B'', name = ''Binh''\<rparr>]))
        = Some k \<and> 0 \<le> k \<and> k < 2) \<and>
   teacherIdAt [\<lparr>id' = ''A'', name = ''An''\<rparr>, \<lparr>id' = ''B'', name = ''Binh''\<rparr>]
     (js_rem 5 (int (length [\<lparr>id' = ''A'', name = ''An''\<rparr>, \<lparr>id' = ''B'', name = ''Binh''\<rparr>])))
     = Inr ''B'' \<and>
   (\<exists>b. cursorBefore [\<lparr>id' = ''A'', name = ''An''\<rparr>, \<lparr>id' = ''B'', name = ''Binh''\<rparr>]
          [''2024-01-02'' \<mapsto> ''B''] (startDateOf (2024, 1, 1))
          \<lparr>getFullYear = 2024, getMonth = 0, getDate = 3\<rparr> = Some b \<and> 0 \<le> b) \<and>
   (\<exists>shifts. generateSchedule [\<lparr>id' = ''A'', name = ''An''\<rparr>, \<lparr>id' = ''B'', name = ''Binh''\<rparr>]
      (2024, 1, 1) [''2024-01-02'' \<mapsto> ''B'']
      \<lparr>getFullYear = 2024, getMonth = 0, getDate = 15\<rparr> = Inr shifts)"
proof -
  have s: "startDateOf (2024, 1, 1) = \<lparr>getFullYear = 2024, getMonth = 0, getDate = 1\<rparr>"
    by (simp add: startDateOf_def new_Date_in_range fullYear_def DaysInMonth_def)
  have v: "validDate \<lparr>getFullYear = 2024, getMonth = 0, getDate = 3\<rparr>"
    by (simp add: validDate_def DaysInMonth_def)
  have le: "dayNumber (startDateOf (2024, 1, 1))
      \<le> dayNumber \<lparr>getFullYear = 2024, getMonth = 0, getDate = 3\<rparr>"
    unfolding s by (simp add: dayNumber_def MakeDay_def)
  have m: "(5::nat) mod Suc (Suc 0) = Suc 0" by code_simp
  show ?thesis
    using cursor_never_negative [where ts = "[\<lparr>id' = ''A'', name = ''An''\<rparr>, \<lparr>id' = ''B'', name = ''Binh''\<rparr>]"
        and c = 5 and d = "\<lparr>getFullYear = 2024, getMonth = 0, getDate = 3\<rparr>" and sd = "(2024, 1, 1)"
        and mc = "[''2024-01-02'' \<mapsto> ''B'']"
        and cur = "\<lparr>getFullYear = 2024, getMonth = 0, getDate = 15\<rparr>"] v le
    by (simp add: m)
qed

text \<open>
  Claim C9.  Changing the schedule start date to a non-empty value through
  \<open>handleStartDateChange\<close> stores the new start date and at the same time replaces the
  whole override map and the whole colour map by empty maps; the roster is left as it is.
\<close>

theorem handleStartDateChange_resets:
  assumes "newDate \<noteq> []"
  shows "manualChanges (handleStartDateChange newDate s) = Map.empty \<and>
         dateColors (handleStartDateChange newDate s) = Map.empty \<and>
         scheduleStartDate (handleStartDateChange newDate s) = newDate \<and>
         teachers (handleStartDateChange newDate s) = teachers s"
  using assms by (simp add: handleStartDateChange_def)

theorem handleStartDateChange_resets_witness:
  "manualChanges (handleStartDateChange ''2024-03-01''
      \<lparr>teachers = [\<lparr>id' = ''1'', name = ''An''\<rparr>], scheduleStartDate = ''2024-01-01'',
       manualChanges = [''2024-01-03'' \<mapsto> ''1''],
       dateColors = [''2024-01-04'' \<mapsto> ''#ff0000'']\<rparr>) = Map.empty \<and>
   dateColors (handleStartDateChange ''2024-03-01''
      \<lparr>teachers = [\<lparr>id' = ''1'', name = ''An''\<rparr>], scheduleStartDate = ''2024-01-01'',
       manualChanges = [''2024-01-03'' \<mapsto> ''1''],
       dateColors = [''2024-01-04'' \<mapsto> ''#ff0000'']\<rparr>) = Map.empty \<and>
   scheduleStartDate (handleStartDateChange ''2024-03-01''
      \<lparr>teachers = [\<lparr>id' = ''1'', name = ''An''\<rparr>], scheduleStartDate = ''2024-01-01'',
       manualChanges = [''2024-01-03'' \<mapsto> ''1''],
       dateColors = [''2024-01-04'' \<mapsto> ''#ff0000'']\<rparr>) = ''2024-03-01''"
  using handleStartDateChange_resets [of "''2024-03-01''"
      "\<lparr>teachers = [\<lparr>id' = ''1'', name = ''An''\<rparr>], scheduleStartDate = ''2024-01-01'',
        manualChanges = [''2024-01-03'' \<mapsto> ''1''],
        dateColors = [''2024-01-04'' \<mapsto> ''#ff0000'']\<rparr>"]
  by simp



end
